theory Spec2Isabelle
  imports Main "HOL-Library.Word"
begin

section \<open>Flat address-space map (FlatAddressSpaceMap)\<close>

text \<open>
  The block vector of \<^verbatim>\<open>FlatAddressSpaceMap\<close> is a list of blocks; iterators into the
  vector are list indices, \<^verbatim>\<open>blocks.end()\<close> being the length of the list.
  Virtual addresses (\<^verbatim>\<open>VaType\<close>) are unsigned 64-bit machine words, so that
  \<^verbatim>\<open>virt + size\<close> wraps as it does in the source. The backing value (\<^verbatim>\<open>PaType\<close>) is a
  host pointer for the memory manager and a \<^verbatim>\<open>bool\<close> for the allocator; it is modelled
  as a natural number (a host address, or 0/1 for \<^verbatim>\<open>false\<close>/\<^verbatim>\<open>true\<close>): pointer arithmetic
  that leaves the pointed-to object is undefined in C++, it does not wrap.
  The extra block information is the \<^verbatim>\<open>sparseMapped\<close> flag of the memory manager
  (always \<^verbatim>\<open>False\<close> for the allocator's empty struct).
\<close>

type_synonym VaType = "64 word"
type_synonym PaType = nat

datatype Block = Block (virt: VaType) (phys: PaType) (extraInfo: bool)

text \<open>The template parameters and the \<^verbatim>\<open>vaLimit\<close> member of one map instance.\<close>

record Params =
  UnmappedVa :: VaType
  UnmappedPa :: PaType
  PaContigSplit :: bool
  vaLimit :: VaType

datatype error =
    MapPastVaLimit
  | MapBeforeVaStart
  | UnmapPastVaLimit
  | UnmapBeforeVaStart
  | UnsortedBlock VaType
  | MultipleContiguousUnmapped
  | UnexpectedMemoryManagerState
  | IteratorOutOfRange
  | PageFault VaType
  | SparseMapTooSmall
  | FirstBlockInvalid
  | UnexpectedAllocatorState

definition Unmapped :: "Params \<Rightarrow> Block \<Rightarrow> bool" where
  "Unmapped cfg b = (phys b = UnmappedPa cfg)"

definition Mapped :: "Params \<Rightarrow> Block \<Rightarrow> bool" where
  "Mapped cfg b = (phys b \<noteq> UnmappedPa cfg)"

text \<open>
  \<^verbatim>\<open>std::lower_bound(blocks.begin(), blocks.end(), v)\<close> with \<^verbatim>\<open>Block::operator<\<close>
  (\<^verbatim>\<open>block.virt < v\<close>): the first position whose block does not start below \<open>v\<close>.
  \<^verbatim>\<open>std::upper_bound\<close> with the comparison \<^verbatim>\<open>v < block.virt\<close>: the first position
  whose block starts above \<open>v\<close>. Both are given for the partitioned (sorted) vectors
  the standard library requires.
\<close>

definition lower_bound :: "Block list \<Rightarrow> VaType \<Rightarrow> nat" where
  "lower_bound blocks v = length (takeWhile (\<lambda>b. virt b < v) blocks)"

definition upper_bound :: "Block list \<Rightarrow> VaType \<Rightarrow> nat" where
  "upper_bound blocks v = length (takeWhile (\<lambda>b. \<not> v < virt b) blocks)"

text \<open>\<^verbatim>\<open>vector::insert(pos, {...})\<close> and \<^verbatim>\<open>vector::erase(first, last)\<close>.\<close>

definition insert_at :: "'a list \<Rightarrow> nat \<Rightarrow> 'a list \<Rightarrow> 'a list" where
  "insert_at xs i ys = take i xs @ ys @ drop i xs"

definition erase :: "'a list \<Rightarrow> nat \<Rightarrow> nat \<Rightarrow> 'a list" where
  "erase xs eraseFirst eraseLast = take eraseFirst xs @ drop eraseLast xs"

text \<open>
  The loop \<^verbatim>\<open>while (std::prev(blockStartSuccessor)->virt >= virt) blockStartSuccessor--\<close>
  of \<^verbatim>\<open>MapLocked\<close>. Stepping before \<^verbatim>\<open>blocks.begin()\<close> is undefined in the source and is
  \<open>None\<close> here.
\<close>

fun walkToStartSuccessor :: "Block list \<Rightarrow> VaType \<Rightarrow> nat \<Rightarrow> nat option" where
  "walkToStartSuccessor blocks v 0 = None"
| "walkToStartSuccessor blocks v (Suc i) =
     (if virt (blocks ! i) \<ge> v then walkToStartSuccessor blocks v i else Some (Suc i))"

text \<open>Lines 81 to 102 of \<^verbatim>\<open>MapLocked\<close>: find the start successor, then insert or reuse.\<close>

definition MapLockedHead ::
  "Block list \<Rightarrow> nat \<Rightarrow> VaType \<Rightarrow> PaType \<Rightarrow> VaType \<Rightarrow> bool \<Rightarrow> error + Block list" where
  "MapLockedHead blocks blockEndSuccessor v p virtEnd extra =
     (case walkToStartSuccessor blocks v blockEndSuccessor of
        None \<Rightarrow> Inl IteratorOutOfRange
      | Some blockStartSuccessor \<Rightarrow>
          if virt (blocks ! blockStartSuccessor) > virtEnd then
            Inl (UnsortedBlock (virt (blocks ! blockStartSuccessor)))
          else if virt (blocks ! blockStartSuccessor) = virtEnd then
            Inr (insert_at blocks blockStartSuccessor [Block v p extra])
          else
            Inr ((erase blocks (Suc blockStartSuccessor) blockEndSuccessor)
                   [blockStartSuccessor := Block v p extra]))"

definition MapLocked ::
  "Params \<Rightarrow> Block list \<Rightarrow> VaType \<Rightarrow> PaType \<Rightarrow> VaType \<Rightarrow> bool \<Rightarrow> error + Block list" where
  "MapLocked cfg blocks v p sz extra =
     (let virtEnd = v + sz in
      if virtEnd > vaLimit cfg then Inl MapPastVaLimit
      else
        let blockEndSuccessor = lower_bound blocks virtEnd in
        if blockEndSuccessor = 0 then Inl MapBeforeVaStart
        else
          let blockEndPredecessor = blockEndSuccessor - 1;
              pred = blocks ! blockEndPredecessor
          in
          if blockEndSuccessor \<noteq> length blocks then
            if virt (blocks ! blockEndSuccessor) \<noteq> virtEnd then
              let tailPhys =
                    (if \<not> PaContigSplit cfg \<or> Unmapped cfg pred then phys pred
                     else phys pred + unat virtEnd - unat (virt pred))
              in
              if virt pred \<ge> v then
                MapLockedHead
                  (blocks[blockEndPredecessor := Block virtEnd tailPhys (extraInfo pred)])
                  blockEndPredecessor v p virtEnd extra
              else
                Inr (insert_at blocks blockEndSuccessor
                       [Block v p extra, Block virtEnd tailPhys (extraInfo pred)])
            else MapLockedHead blocks blockEndSuccessor v p virtEnd extra
          else
            if blockEndPredecessor \<noteq> 0 \<and> virt pred \<ge> v then
              MapLockedHead
                (blocks[blockEndPredecessor := Block virtEnd (phys pred) (extraInfo pred)])
                blockEndPredecessor v p virtEnd extra
            else
              Inr (insert_at blocks blockEndSuccessor
                     [Block v p extra, Block virtEnd (UnmappedPa cfg) False]))"

text \<open>
  \<^verbatim>\<open>walkBackToPredecessor\<close> of \<^verbatim>\<open>UnmapLocked\<close>:
  \<^verbatim>\<open>while (iter->virt >= virt) iter--; return iter\<close>.
\<close>

fun walkBackToPredecessor :: "Block list \<Rightarrow> VaType \<Rightarrow> nat \<Rightarrow> nat option" where
  "walkBackToPredecessor blocks v 0 = (if virt (blocks ! 0) \<ge> v then None else Some 0)"
| "walkBackToPredecessor blocks v (Suc i) =
     (if virt (blocks ! Suc i) \<ge> v then walkBackToPredecessor blocks v i else Some (Suc i))"

definition eraseBlocksWithEndUnmapped ::
  "Params \<Rightarrow> Block list \<Rightarrow> VaType \<Rightarrow> nat \<Rightarrow> error + Block list" where
  "eraseBlocksWithEndUnmapped cfg blocks v unmappedEnd =
     (case walkBackToPredecessor blocks v unmappedEnd of
        None \<Rightarrow> Inl IteratorOutOfRange
      | Some blockStartPredecessor \<Rightarrow>
          let blockStartSuccessor = Suc blockStartPredecessor;
              startUnmapped = Unmapped cfg (blocks ! blockStartPredecessor);
              blocks' = (if startUnmapped then blocks
                         else blocks[unmappedEnd :=
                                Block v (phys (blocks ! unmappedEnd)) (extraInfo (blocks ! unmappedEnd))]);
              eraseEnd = (if startUnmapped then Suc unmappedEnd else unmappedEnd)
          in
          if eraseEnd \<noteq> length blocks' \<and>
             (eraseEnd = blockStartSuccessor \<or>
              (startUnmapped \<and> Unmapped cfg (blocks' ! eraseEnd)))
          then Inl MultipleContiguousUnmapped
          else Inr (erase blocks' blockStartSuccessor eraseEnd))"

text \<open>Lines 197 to 220 of \<^verbatim>\<open>UnmapLocked\<close>.\<close>

definition UnmapLockedHead ::
  "Params \<Rightarrow> Block list \<Rightarrow> nat \<Rightarrow> nat \<Rightarrow> VaType \<Rightarrow> VaType \<Rightarrow> error + Block list" where
  "UnmapLockedHead cfg blocks blockEndPredecessor blockEndSuccessor v virtEnd =
     (case walkBackToPredecessor blocks v blockEndSuccessor of
        None \<Rightarrow> Inl IteratorOutOfRange
      | Some blockStartPredecessor \<Rightarrow>
          let blockStartSuccessor = Suc blockStartPredecessor in
          if virt (blocks ! blockStartSuccessor) > virtEnd then
            Inl (UnsortedBlock (virt (blocks ! blockStartSuccessor)))
          else if virt (blocks ! blockStartSuccessor) = virtEnd then
            (if Mapped cfg (blocks ! blockStartPredecessor)
             then Inr (insert_at blocks blockStartSuccessor [Block v (UnmappedPa cfg) False])
             else Inr blocks)
          else if Unmapped cfg (blocks ! blockStartPredecessor) then
            Inr (erase blocks blockStartSuccessor blockEndPredecessor)
          else
            Inr ((erase blocks (Suc blockStartSuccessor) blockEndSuccessor)
                   [blockStartSuccessor :=
                      Block v (UnmappedPa cfg) (extraInfo (blocks ! blockStartSuccessor))]))"

definition UnmapLocked :: "Params \<Rightarrow> Block list \<Rightarrow> VaType \<Rightarrow> VaType \<Rightarrow> error + Block list" where
  "UnmapLocked cfg blocks v sz =
     (let virtEnd = v + sz in
      if virtEnd > vaLimit cfg then Inl UnmapPastVaLimit
      else
        let blockEndSuccessor = lower_bound blocks virtEnd in
        if blockEndSuccessor = 0 then Inl UnmapBeforeVaStart
        else
          let blockEndPredecessor = blockEndSuccessor - 1;
              pred = blocks ! blockEndPredecessor
          in
          if Unmapped cfg pred then
            (if virt pred > v then eraseBlocksWithEndUnmapped cfg blocks v blockEndPredecessor
             else Inr blocks)
          else if blockEndSuccessor = length blocks then Inl UnexpectedMemoryManagerState
          else if virt (blocks ! blockEndSuccessor) = virtEnd
                  \<and> Unmapped cfg (blocks ! blockEndSuccessor) then
            eraseBlocksWithEndUnmapped cfg blocks v blockEndSuccessor
          else if virt (blocks ! blockEndSuccessor) \<noteq> virtEnd then
            let tailPhys =
                  (if PaContigSplit cfg then phys pred + unat virtEnd - unat (virt pred)
                   else phys pred)
            in
            if virt pred \<ge> v then
              UnmapLockedHead cfg
                (blocks[blockEndPredecessor := Block virtEnd tailPhys (extraInfo pred)])
                (blockEndPredecessor - 1) blockEndPredecessor v virtEnd
            else
              Inr (insert_at blocks blockEndSuccessor
                     [Block v (UnmappedPa cfg) False, Block virtEnd tailPhys (extraInfo pred)])
          else UnmapLockedHead cfg blocks blockEndPredecessor blockEndSuccessor v virtEnd)"

text \<open>The constructor leaves one default block: \<^verbatim>\<open>blocks{Block{}}\<close>.\<close>

definition initialBlocks :: "Params \<Rightarrow> Block list" where
  "initialBlocks cfg = [Block (UnmappedVa cfg) (UnmappedPa cfg) False]"



subsection \<open>Map and Unmap on a partitioned block list\<close>

text \<open>
  A sorted block list splits at a range \<open>[v, v + n)\<close> into the blocks starting below \<open>v\<close>,
  the blocks starting inside the range and the blocks starting at or after its end. On such
  a split every iterator of \<^verbatim>\<open>MapLocked\<close> is a length, and the result can be read off.
\<close>

lemma lower_bound_append:
  "\<forall>b\<in>set X. virt b < e \<Longrightarrow> \<forall>b\<in>set C. e \<le> virt b \<Longrightarrow> lower_bound (X @ C) e = length X"
  by (cases C) (auto simp: lower_bound_def takeWhile_append2 takeWhile_eq_all_conv[THEN iffD2])

lemma walkToStartSuccessor_append:
  "A \<noteq> [] \<Longrightarrow> \<forall>b\<in>set A. virt b < v \<Longrightarrow> \<forall>b\<in>set M. v \<le> virt b \<Longrightarrow>
   walkToStartSuccessor (A @ M @ R) v (length A + length M) = Some (length A)"
proof (induction M arbitrary: R rule: rev_induct)
  case Nil
  then obtain A' a where A: "A = A' @ [a]" by (metis rev_exhaust)
  with Nil show ?case by (auto simp: nth_append dest: leD)
next
  case (snoc m M)
  have "walkToStartSuccessor (A @ M @ (m # R)) v (length A + length M) = Some (length A)"
    using snoc by simp
  with snoc.prems show ?case by (simp add: nth_append)
qed

definition tailPhysMap :: "Params \<Rightarrow> Block \<Rightarrow> VaType \<Rightarrow> PaType" where
  "tailPhysMap cfg pred virtEnd =
     (if \<not> PaContigSplit cfg \<or> Unmapped cfg pred then phys pred
      else phys pred + unat virtEnd - unat (virt pred))"

definition mapTail :: "Params \<Rightarrow> Block list \<Rightarrow> Block list \<Rightarrow> Block list \<Rightarrow> VaType \<Rightarrow> Block list" where
  "mapTail cfg A M C virtEnd =
     (case C of
        [] \<Rightarrow> [if M = [] then Block virtEnd (UnmappedPa cfg) False
               else Block virtEnd (phys (last M)) (extraInfo (last M))]
      | c # cs \<Rightarrow>
          if virt c = virtEnd then C
          else Block virtEnd (tailPhysMap cfg (last (A @ M)) virtEnd) (extraInfo (last (A @ M))) # C)"




lemma walkToStartSuccessor_nil:
  "A \<noteq> [] \<Longrightarrow> \<forall>b\<in>set A. virt b < v \<Longrightarrow> walkToStartSuccessor (A @ R) v (length A) = Some (length A)"
  using walkToStartSuccessor_append[of A v "[]" R] by simp

lemma walkToStartSuccessor_cons:
  "A \<noteq> [] \<Longrightarrow> \<forall>b\<in>set A. virt b < v \<Longrightarrow> v \<le> virt m1 \<Longrightarrow> \<forall>b\<in>set M1. v \<le> virt b \<Longrightarrow>
   walkToStartSuccessor (A @ m1 # M1 @ R) v (Suc (length A + length M1)) = Some (length A)"
  using walkToStartSuccessor_append[of A v "m1 # M1" R] by (simp del: walkToStartSuccessor.simps)

lemma nth_append_last: "A \<noteq> [] \<Longrightarrow> (A @ R) ! (length A - Suc 0) = last A"
  by (simp add: nth_append last_conv_nth)

lemma MapLocked_split:
  assumes A: "A \<noteq> []" "\<forall>b\<in>set A. virt b < v"
      and M: "\<forall>b\<in>set M. v \<le> virt b \<and> virt b < v + n"
      and C: "\<forall>b\<in>set C. v + n \<le> virt b"
      and r: "v < v + n" "v + n \<le> vaLimit cfg"
  shows "MapLocked cfg (A @ M @ C) v p n e = Inr (A @ Block v p e # mapTail cfg A M C (v + n))"
proof -
  have a0: "virt (last A) < v" using A last_in_set by blast
  have a: "virt (last A) < v" "\<not> v \<le> virt (last A)" using a0 by (auto simp: leD)
  have lA: "0 < length A" using A by simp
  have nA: "A ! (length A - Suc 0) = last A" using A by (simp add: last_conv_nth)
  have lb: "lower_bound (A @ M @ C) (v + n) = length A + length M"
  proof -
    have "\<forall>b\<in>set (A @ M). virt b < v + n" using A M r by (auto intro: less_trans)
    then show ?thesis using lower_bound_append[of "A @ M" "v + n" C] C by simp
  qed
  have nlim: "\<not> v + n > vaLimit cfg" using r by simp
  note ws = walkToStartSuccessor_nil[OF A] walkToStartSuccessor_cons[OF A]
  have hdM: "M = m1 # M1 \<Longrightarrow> virt m1 \<noteq> v + n \<and> \<not> v + n < virt m1 \<and> v \<le> virt m1 \<and> (\<forall>b\<in>set M1. v \<le> virt b)" for m1 M1
    using M by auto
  show ?thesis
  proof (cases C)
    case Nil
    show ?thesis
    proof (cases "M = []")
      case True
      with Nil A a show ?thesis
        unfolding MapLocked_def Let_def lb
        by (simp add: nlim insert_at_def mapTail_def nth_append_last[of A "[]", simplified])
    next
      case False
      then obtain M' m where Mm: "M = M' @ [m]" by (metis rev_exhaust)
      have m: "v \<le> virt m" using M Mm by simp
      show ?thesis
      proof (cases M')
        case Nil': Nil
        with Nil Mm lA m r show ?thesis
          unfolding MapLocked_def Let_def lb
          by (simp add: ws nlim insert_at_def mapTail_def nth_append MapLockedHead_def del: walkToStartSuccessor.simps)
      next
        case (Cons m1 M1)
        with Cons Nil Mm lA m r hdM[of m1 "M1 @ [m]"] show ?thesis
          unfolding MapLocked_def Let_def lb
          by (simp add: ws nlim insert_at_def mapTail_def nth_append MapLockedHead_def erase_def list_update_append del: walkToStartSuccessor.simps)
      qed
    qed
  next
    case (Cons c cs)
    have c: "v + n \<le> virt c" using C Cons by simp
    show ?thesis
    proof (cases "virt c = v + n")
      case True
      show ?thesis
      proof (cases M)
        case Nil
        with Cons True lA r show ?thesis
          unfolding MapLocked_def Let_def lb
          by (simp add: ws nlim insert_at_def mapTail_def nth_append MapLockedHead_def del: walkToStartSuccessor.simps)
      next
        case (Cons m1 M1)
        with Cons \<open>C = c # cs\<close> True lA r hdM[of m1 M1] show ?thesis
          unfolding MapLocked_def Let_def lb
          by (simp add: ws nlim insert_at_def mapTail_def nth_append MapLockedHead_def erase_def list_update_append del: walkToStartSuccessor.simps)
      qed
    next
      case False
      show ?thesis
      proof (cases "M = []")
        case True
        with Cons False A a show ?thesis
          unfolding MapLocked_def Let_def lb
          by (simp add: nlim insert_at_def mapTail_def tailPhysMap_def nA nth_append)
      next
        case Mne: False
        then obtain M' m where Mm: "M = M' @ [m]" by (metis rev_exhaust)
        have m: "v \<le> virt m" using M Mm by simp
        show ?thesis
        proof (cases M')
          case Nil
          with Cons False Mm lA m r show ?thesis
            unfolding MapLocked_def Let_def lb
            by (simp add: ws nlim insert_at_def mapTail_def tailPhysMap_def nth_append MapLockedHead_def del: walkToStartSuccessor.simps)
        next
          case Cons': (Cons m1 M1)
          with Cons' Cons False Mm lA m r hdM[of m1 "M1 @ [m]"] show ?thesis
            unfolding MapLocked_def Let_def lb
            by (simp add: ws nlim insert_at_def mapTail_def tailPhysMap_def nth_append MapLockedHead_def erase_def list_update_append del: walkToStartSuccessor.simps)
        qed
      qed
    qed
  qed
qed

definition sortedBlocks :: "Block list \<Rightarrow> bool" where
  "sortedBlocks blocks = sorted_wrt (\<lambda>a b. virt a < virt b) blocks"

lemma sortedBlocks_dropWhile_ge:
  "sortedBlocks bs \<Longrightarrow> b \<in> set (dropWhile (\<lambda>b. virt b < v) bs) \<Longrightarrow> v \<le> virt b"
  unfolding sortedBlocks_def
proof (induction bs)
  case Nil
  then show ?case by simp
next
  case (Cons x xs)
  show ?case
  proof (cases "virt x < v")
    case True
    with Cons show ?thesis by simp
  next
    case False
    with Cons.prems show ?thesis by (auto simp: not_less intro: less_imp_le order.trans)
  qed
qed

lemma sortedBlocks_appendD:
  "sortedBlocks (xs @ ys) \<Longrightarrow> sortedBlocks xs \<and> sortedBlocks ys"
  by (simp add: sortedBlocks_def sorted_wrt_append)

definition partA :: "Block list \<Rightarrow> VaType \<Rightarrow> Block list" where
  "partA bs v = takeWhile (\<lambda>b. virt b < v) bs"

definition partM :: "Block list \<Rightarrow> VaType \<Rightarrow> VaType \<Rightarrow> Block list" where
  "partM bs v e = takeWhile (\<lambda>b. virt b < e) (dropWhile (\<lambda>b. virt b < v) bs)"

definition partC :: "Block list \<Rightarrow> VaType \<Rightarrow> VaType \<Rightarrow> Block list" where
  "partC bs v e = dropWhile (\<lambda>b. virt b < e) (dropWhile (\<lambda>b. virt b < v) bs)"

lemma part_append: "partA bs v @ partM bs v e @ partC bs v e = bs"
  by (simp add: partA_def partM_def partC_def)

lemma partA_less: "\<forall>b\<in>set (partA bs v). virt b < v"
  by (auto simp: partA_def dest: set_takeWhileD)

lemma partM_bounds:
  assumes "sortedBlocks bs"
  shows "\<forall>b\<in>set (partM bs v e). v \<le> virt b \<and> virt b < e"
proof
  fix b assume b: "b \<in> set (partM bs v e)"
  then have "b \<in> set (dropWhile (\<lambda>b. virt b < v) bs)" "virt b < e"
    by (auto simp: partM_def dest: set_takeWhileD)
  with assms show "v \<le> virt b \<and> virt b < e"
    by (auto dest: sortedBlocks_dropWhile_ge)
qed

lemma partC_ge:
  assumes "sortedBlocks bs"
  shows "\<forall>b\<in>set (partC bs v e). e \<le> virt b"
proof -
  have "sortedBlocks (dropWhile (\<lambda>b. virt b < v) bs)"
    using assms sortedBlocks_appendD[of "takeWhile (\<lambda>b. virt b < v) bs" "dropWhile (\<lambda>b. virt b < v) bs"]
    by simp
  then show ?thesis
    by (auto simp: partC_def dest: sortedBlocks_dropWhile_ge)
qed

lemma partA_nonempty: "bs \<noteq> [] \<Longrightarrow> virt (hd bs) < v \<Longrightarrow> partA bs v \<noteq> []"
  by (cases bs) (auto simp: partA_def)

lemma partAM_take:
  assumes "v \<le> e"
  shows "partA bs v @ partM bs v e = take (lower_bound bs e) bs"
proof -
  have all: "\<forall>b\<in>set (partA bs v). virt b < e"
    using partA_less[of bs v] assms by (auto intro: less_le_trans)
  have "takeWhile (\<lambda>b. virt b < e) (partA bs v @ dropWhile (\<lambda>b. virt b < v) bs)
        = partA bs v @ partM bs v e"
    using all by (simp add: takeWhile_append2 partM_def)
  then have "takeWhile (\<lambda>b. virt b < e) bs = partA bs v @ partM bs v e"
    by (simp add: partA_def)
  then show ?thesis
    by (metis lower_bound_def takeWhile_eq_take)
qed

lemma partC_drop:
  assumes "v \<le> e"
  shows "partC bs v e = drop (lower_bound bs e) bs"
proof -
  have "take (lower_bound bs e) bs @ partC bs v e = bs"
    using partAM_take[OF assms, of bs] part_append[of bs v e] by (metis append_assoc)
  then have "take (lower_bound bs e) bs @ partC bs v e = take (lower_bound bs e) bs @ drop (lower_bound bs e) bs"
    by simp
  then show ?thesis by (simp only: same_append_eq)
qed

lemma partA_take: "partA bs v = take (lower_bound bs v) bs"
  by (simp add: partA_def lower_bound_def takeWhile_eq_take[symmetric])


lemma lower_bound_le_length: "lower_bound bs e \<le> length bs"
  by (simp add: lower_bound_def length_takeWhile_le)

lemma last_take_lower_bound:
  assumes "bs \<noteq> []" "virt (hd bs) < e"
  shows "0 < lower_bound bs e" "last (take (lower_bound bs e) bs) = bs ! (lower_bound bs e - 1)"
proof -
  show pos: "0 < lower_bound bs e" using assms by (cases bs) (auto simp: lower_bound_def)
  have "take (lower_bound bs e) bs \<noteq> []" using pos assms by auto
  then show "last (take (lower_bound bs e) bs) = bs ! (lower_bound bs e - 1)"
    using pos lower_bound_le_length[of bs e] by (simp add: last_conv_nth min_absorb2)
qed

definition cfgMM :: Params where
  "cfgMM = \<lparr>UnmappedVa = 0, UnmappedPa = 0, PaContigSplit = True, vaLimit = 0x10000\<rparr>"

text \<open>
  C5 (amended). When the end of the mapped range \<open>v + n\<close> is not the start of a block,
  it lies strictly inside the block \<open>pred\<close> before it. \<^verbatim>\<open>MapLocked\<close> then succeeds and
  the new vector is: the blocks starting below \<open>v\<close>, the new block at \<open>v\<close>, a tail block at
  \<open>v + n\<close>, and the blocks starting after \<open>v + n\<close>. The tail's backing is the backing of
  \<open>pred\<close> plus the split offset exactly when the map is offset-contiguous and \<open>pred\<close> is
  mapped (a sparse block is mapped, so its backing is offset too); an unmapped backing is
  inherited verbatim. The tail inherits the extra information of \<open>pred\<close>, except that a
  sentinel appended after the last block gets the default one.
\<close>

theorem MapLocked_tail_split:
  assumes "sortedBlocks bs" "bs \<noteq> []" "virt (hd bs) < v" "v < v + n" "v + n \<le> vaLimit cfg"
      and "Unmapped cfg (last bs)"
      and "lower_bound bs (v + n) = length bs \<or> virt (bs ! lower_bound bs (v + n)) \<noteq> v + n"
  shows "MapLocked cfg bs v p n e =
           Inr (let pred = bs ! (lower_bound bs (v + n) - 1) in
                take (lower_bound bs v) bs @
                [Block v p e,
                 Block (v + n)
                   (if PaContigSplit cfg \<and> Mapped cfg pred
                    then phys pred + unat (v + n) - unat (virt pred) else phys pred)
                   (if lower_bound bs (v + n) = length bs \<and> virt pred < v then False
                    else extraInfo pred)] @
                drop (lower_bound bs (v + n)) bs)"
proof -
  let ?A = "partA bs v" and ?M = "partM bs v (v + n)" and ?C = "partC bs v (v + n)"
  let ?i = "lower_bound bs (v + n)"
  let ?pred = "bs ! (?i - 1)"
  have le: "v \<le> v + n" using assms(4) by simp
  have hd: "virt (hd bs) < v + n" using assms(3,4) by (rule less_trans)
  have bs: "bs = ?A @ ?M @ ?C" by (simp add: part_append)
  have Ane: "?A \<noteq> []" using assms(2,3) by (rule partA_nonempty)
  have split: "MapLocked cfg (?A @ ?M @ ?C) v p n e = Inr (?A @ Block v p e # mapTail cfg ?A ?M ?C (v + n))"
    using Ane partA_less partM_bounds[OF assms(1)] partC_ge[OF assms(1)] assms(4,5)
    by (rule MapLocked_split)
  have C: "?C = drop ?i bs" using le by (rule partC_drop)
  have AM: "?A @ ?M = take ?i bs" using le by (rule partAM_take)
  have pred: "last (?A @ ?M) = ?pred"
    using last_take_lower_bound(2)[OF assms(2) hd] AM by simp
  have ipos: "0 < ?i" using last_take_lower_bound(1)[OF assms(2) hd] .
  have tail: "mapTail cfg ?A ?M ?C (v + n) =
      Block (v + n)
        (if PaContigSplit cfg \<and> Mapped cfg ?pred
         then phys ?pred + unat (v + n) - unat (virt ?pred) else phys ?pred)
        (if ?i = length bs \<and> virt ?pred < v then False else extraInfo ?pred) # drop ?i bs"
  proof (cases "?i = length bs")
    case True
    then have Cnil: "?C = []" using C by simp
    have predlast: "?pred = last bs" using True assms(2) by (simp add: last_conv_nth)
    then have U: "phys ?pred = UnmappedPa cfg" "\<not> Mapped cfg ?pred"
      using assms(6) by (simp_all add: Unmapped_def Mapped_def)
    show ?thesis
    proof (cases "?M = []")
      case Mnil: True
      then have "?pred = last ?A" using pred by simp
      then have "virt ?pred < v" using partA_less[of bs v] Ane last_in_set by metis
      with True Cnil Mnil U show ?thesis by (simp add: mapTail_def)
    next
      case Mne: False
      then have lm: "last ?M = ?pred" using pred by simp
      then have "v \<le> virt ?pred" using partM_bounds[OF assms(1), of v "v + n"] Mne last_in_set by metis
      then have "\<not> virt ?pred < v" by (simp add: not_less)
      with True Cnil Mne U lm show ?thesis by (simp add: mapTail_def)
    qed
  next
    case False
    then have lt: "?i < length bs" using lower_bound_le_length[of bs "v + n"] by simp
    then have Ccons: "?C = bs ! ?i # drop (Suc ?i) bs" using C by (simp add: Cons_nth_drop_Suc)
    have ne: "virt (bs ! ?i) \<noteq> v + n" using assms(7) False by simp
    have "mapTail cfg ?A ?M ?C (v + n) =
            Block (v + n) (tailPhysMap cfg (last (?A @ ?M)) (v + n)) (extraInfo (last (?A @ ?M))) # ?C"
      unfolding mapTail_def by (subst (1) Ccons) (simp add: ne)
    also have "\<dots> = Block (v + n) (tailPhysMap cfg ?pred (v + n)) (extraInfo ?pred) # drop ?i bs"
      by (simp only: pred C)
    finally show ?thesis
      using False by (simp add: tailPhysMap_def Mapped_def Unmapped_def)
  qed
  have "MapLocked cfg bs v p n e = Inr (?A @ Block v p e # mapTail cfg ?A ?M ?C (v + n))"
    using split by (simp only: part_append)
  then have "MapLocked cfg bs v p n e =
      Inr (?A @ Block v p e #
        Block (v + n)
          (if PaContigSplit cfg \<and> Mapped cfg ?pred
           then phys ?pred + unat (v + n) - unat (virt ?pred) else phys ?pred)
          (if ?i = length bs \<and> virt ?pred < v then False else extraInfo ?pred) # drop ?i bs)"
    by (simp only: tail)
  then show ?thesis
    unfolding Let_def by (simp only: partA_take append_Cons append_Nil)
qed

theorem MapLocked_tail_split_witness:
  "MapLocked cfgMM [Block 0 0 False, Block 10 1000 False, Block 30 0 False] 5 500 10 False
     = Inr [Block 0 0 False, Block 5 500 False, Block 15 1005 False, Block 30 0 False]"
  using MapLocked_tail_split[of "[Block 0 0 False, Block 10 1000 False, Block 30 0 False]" 5 10 cfgMM 500 False]
  by (simp add: sortedBlocks_def cfgMM_def Unmapped_def Mapped_def lower_bound_def)

text \<open>
  C5 as stated fails for a sparse block: with an offset-contiguous map, mapping \<open>[5, 15)\<close>
  over the sparse block \<open>[10, 30)\<close> backed at 1000 leaves a sparse tail backed at 1005.
\<close>

theorem MapLocked_sparse_tail_offset:
  "MapLocked cfgMM [Block 0 0 False, Block 10 1000 True, Block 30 0 False] 5 500 10 False
     = Inr [Block 0 0 False, Block 5 500 False, Block 15 1005 True, Block 30 0 False]
   \<and> extraInfo (Block 10 1000 True) \<and> phys (Block 15 1005 True) \<noteq> phys (Block 10 1000 True)"
  by (simp add: MapLocked_def MapLockedHead_def cfgMM_def lower_bound_def Unmapped_def insert_at_def erase_def)



text \<open>\<^verbatim>\<open>UnmapLocked\<close> on the same split of the block list.\<close>

lemma Mapped_iff: "Mapped cfg b = (\<not> Unmapped cfg b)"
  by (simp add: Mapped_def Unmapped_def)

lemma butlast_append_two: "butlast (xs @ [a, b]) = xs @ [a]"
  by (simp add: butlast_append)

lemma walkBackToPredecessor_stop:
  "\<not> v \<le> virt (bs ! i) \<Longrightarrow> walkBackToPredecessor bs v i = Some i"
  by (cases i) simp_all

lemma walkBackToPredecessor_append:
  "A \<noteq> [] \<Longrightarrow> \<forall>b\<in>set A. virt b < v \<Longrightarrow> \<forall>b\<in>set M. v \<le> virt b \<Longrightarrow>
   walkBackToPredecessor (A @ M @ R) v (length A + length M - 1) = Some (length A - 1)"
proof (induction M arbitrary: R rule: rev_induct)
  case Nil
  have "virt (last A) < v" using Nil last_in_set by blast
  then have "\<not> v \<le> virt ((A @ R) ! (length A - 1))"
    using Nil(1) by (simp add: nth_append last_conv_nth leD)
  then show ?case by (simp add: walkBackToPredecessor_stop)
next
  case (snoc m M)
  have ih: "walkBackToPredecessor (A @ M @ (m # R)) v (length A + length M - 1) = Some (length A - 1)"
    using snoc by simp
  obtain k where k: "length A + length M = Suc k" using snoc.prems(1) by (cases A) auto
  have "v \<le> virt ((A @ M @ m # R) ! Suc k)"
    using snoc.prems k[symmetric] by (simp add: nth_append)
  with ih k show ?case by simp
qed

definition tailPhysUnmap :: "Params \<Rightarrow> Block \<Rightarrow> VaType \<Rightarrow> PaType" where
  "tailPhysUnmap cfg pred virtEnd =
     (if PaContigSplit cfg then phys pred + unat virtEnd - unat (virt pred) else phys pred)"

definition unmapSplit ::
  "Params \<Rightarrow> Block list \<Rightarrow> Block list \<Rightarrow> Block list \<Rightarrow> VaType \<Rightarrow> VaType \<Rightarrow> error + Block list" where
  "unmapSplit cfg A M C v virtEnd =
     (let pred = last (A @ M) in
      if Unmapped cfg pred then
        (if virt pred > v then
           (if Unmapped cfg (last A) then
              (if C \<noteq> [] \<and> Unmapped cfg (hd C) then Inl MultipleContiguousUnmapped
               else Inr (A @ C))
            else if butlast M = [] then Inl MultipleContiguousUnmapped
            else Inr (A @ Block v (phys pred) (extraInfo pred) # C))
         else Inr (A @ M @ C))
      else
        (case C of
           [] \<Rightarrow> Inl UnexpectedMemoryManagerState
         | c # cs \<Rightarrow>
             if virt c = virtEnd \<and> Unmapped cfg c then
               (if Unmapped cfg (last A) then
                  (if cs \<noteq> [] \<and> Unmapped cfg (hd cs) then Inl MultipleContiguousUnmapped
                   else Inr (A @ cs))
                else if M = [] then Inl MultipleContiguousUnmapped
                else Inr (A @ Block v (phys c) (extraInfo c) # cs))
             else if virt c \<noteq> virtEnd then
               (let T = Block virtEnd (tailPhysUnmap cfg pred virtEnd) (extraInfo pred) in
                if M = [] then Inr (A @ Block v (UnmappedPa cfg) False # T # C)
                else if butlast M = [] then
                  (if Unmapped cfg (last A) then Inr (A @ T # C)
                   else Inr (A @ Block v (UnmappedPa cfg) False # T # C))
                else if Unmapped cfg (last A) then Inr (A @ last (butlast M) # T # C)
                else Inr (A @ Block v (UnmappedPa cfg) (extraInfo (hd M)) # T # C))
             else
               (if M = [] then Inr (A @ Block v (UnmappedPa cfg) False # C)
                else if Unmapped cfg (last A) then Inr (A @ last M # C)
                else Inr (A @ Block v (UnmappedPa cfg) (extraInfo (hd M)) # C))))"

lemma UnmapLocked_split:
  assumes A: "A \<noteq> []" "\<forall>b\<in>set A. virt b < v"
      and M: "\<forall>b\<in>set M. v \<le> virt b \<and> virt b < v + n"
      and C: "\<forall>b\<in>set C. v + n \<le> virt b"
      and r: "v < v + n" "v + n \<le> vaLimit cfg"
  shows "UnmapLocked cfg (A @ M @ C) v n = unmapSplit cfg A M C v (v + n)"
proof -
  have a0: "virt (last A) < v" using A last_in_set by blast
  have a: "virt (last A) < v" "\<not> v \<le> virt (last A)" "\<not> v < virt (last A)" using a0 by (auto simp: leD)
  have lA: "0 < length A" using A by simp
  have nA: "A ! (length A - Suc 0) = last A" using A by (simp add: last_conv_nth)
  have lb: "lower_bound (A @ M @ C) (v + n) = length A + length M"
  proof -
    have "\<forall>b\<in>set (A @ M). virt b < v + n" using A M r by (auto intro: less_trans)
    then show ?thesis using lower_bound_append[of "A @ M" "v + n" C] C by simp
  qed
  have nlim: "\<not> v + n > vaLimit cfg" using r by simp
  have Mge: "\<forall>b\<in>set M. v \<le> virt b" using M by simp
  have Mn: "\<forall>b\<in>set M. virt b \<noteq> v + n \<and> \<not> v + n < virt b" using M by auto
  have wb: "\<forall>b\<in>set M'. v \<le> virt b \<Longrightarrow>
       walkBackToPredecessor (A @ M' @ R) v (length A + length M' - Suc 0) = Some (length A - Suc 0)" for M' R
    using walkBackToPredecessor_append[OF A, of M' R] by simp
  note defs = UnmapLocked_def unmapSplit_def eraseBlocksWithEndUnmapped_def UnmapLockedHead_def
       insert_at_def erase_def tailPhysUnmap_def Mapped_iff
  show ?thesis
  proof (cases "M = []")
    case Mnil: True
    show ?thesis
    proof (cases "Unmapped cfg (last A)")
      case True
      with Mnil lA nA a show ?thesis
        unfolding defs Let_def lb by (simp add: nlim nth_append)
    next
      case MA: False
      show ?thesis
      proof (cases C)
        case Nil
        with Mnil MA lA nA show ?thesis
          unfolding defs Let_def lb by (simp add: nlim nth_append)
      next
        case (Cons c cs)
        have c: "v + n \<le> virt c" "v \<le> virt c" "\<not> v + n > virt c \<or> True"
          using C Cons r by (auto intro: less_imp_le order.trans)
        have w: "walkBackToPredecessor (A @ c # cs) v (length A) = Some (length A - Suc 0)"
          using wb[of "[c]" cs] c by simp
        from Cons Mnil MA lA nA a c w show ?thesis
          unfolding defs Let_def lb
          by (simp add: nlim nth_append list_update_append del: walkBackToPredecessor.simps)
      qed
    qed
  next
    case Mne: False
    then obtain M' m where Mm: "M = M' @ [m]" by (metis rev_exhaust)
    have m: "v \<le> virt m" "virt m < v + n" "virt m \<noteq> v + n" using M Mm by auto
    have M'ge: "\<forall>b\<in>set M'. v \<le> virt b" using M Mm by simp
    show ?thesis
    proof (cases "Unmapped cfg m")
      case Um: True
      show ?thesis
      proof (cases "virt m > v")
        case gt: True
        have w: "walkBackToPredecessor (A @ M' @ m # C) v (length A + length M') = Some (length A - Suc 0)"
          using wb[of "M' @ [m]" C] M'ge m by simp
        show ?thesis
        proof (cases "Unmapped cfg (last A)")
          case UA: True
          show ?thesis
          proof (cases C)
            case Nil
            with Mm Um gt UA lA nA w show ?thesis
              unfolding defs Let_def lb
              by (simp add: nlim nth_append del: walkBackToPredecessor.simps)
          next
            case (Cons c cs)
            with Mm Um gt UA lA nA w show ?thesis
              unfolding defs Let_def lb
              by (simp add: nlim nth_append del: walkBackToPredecessor.simps)
          qed
        next
          case MA: False
          show ?thesis
          proof (cases "M' = []")
            case True
            with Mm Um gt MA lA nA w show ?thesis
              unfolding defs Let_def lb
              by (simp add: nlim nth_append del: walkBackToPredecessor.simps)
          next
            case False
            with Mm Um gt MA lA nA w show ?thesis
              unfolding defs Let_def lb
              by (simp add: nlim nth_append list_update_append del: walkBackToPredecessor.simps)
          qed
        qed
      next
        case False
        with Mm Um lA show ?thesis
          unfolding defs Let_def lb
          by (simp add: nlim nth_append)
      qed
    next
      case Mm_mapped: False
      show ?thesis
      proof (cases C)
        case Nil
        with Mm Mm_mapped lA show ?thesis
          unfolding defs Let_def lb by (simp add: nlim nth_append)
      next
        case (Cons c cs)
        have c: "v + n \<le> virt c" "v \<le> virt c"
          using C Cons r by (auto intro: less_imp_le order.trans)
        have w: "walkBackToPredecessor (A @ M' @ m # c # cs) v (Suc (length A + length M')) = Some (length A - Suc 0)"
          using wb[of "M' @ [m, c]" cs] M'ge m c by simp
        have wT: "walkBackToPredecessor (A @ M' @ Block (v + n) pp ee # c # cs) v (length A + length M') = Some (length A - Suc 0)" for pp ee
          using wb[of "M' @ [Block (v + n) pp ee]" "c # cs"] M'ge r by simp
        show ?thesis
        proof (cases "virt c = v + n \<and> Unmapped cfg c")
          case cU: True
          show ?thesis
          proof (cases "Unmapped cfg (last A)")
            case UA: True
            show ?thesis
            proof (cases cs)
              case Nil
              with Cons Mm Mm_mapped cU UA lA nA w show ?thesis
                unfolding defs Let_def lb
                by (simp add: nlim nth_append del: walkBackToPredecessor.simps)
            next
              case Cons2: (Cons c2 cs2)
              with Cons Mm Mm_mapped cU UA lA nA w show ?thesis
                unfolding defs Let_def lb
                by (simp add: nlim nth_append del: walkBackToPredecessor.simps)
            qed
          next
            case MA: False
            with Cons Mm Mm_mapped cU lA nA w show ?thesis
              unfolding defs Let_def lb
              by (simp add: nlim nth_append list_update_append del: walkBackToPredecessor.simps)
          qed
        next
          case ncU: False
          show ?thesis
          proof (cases "virt c = v + n")
            case ceq: True
            then have cM: "\<not> Unmapped cfg c" using ncU by simp
            show ?thesis
            proof (cases "Unmapped cfg (last A)")
              case UA: True
              with Cons Mm Mm_mapped ceq cM lA nA w m Mn show ?thesis
                unfolding defs Let_def lb
                apply (cases M')
                by (simp_all add: nlim nth_append del: walkBackToPredecessor.simps)
            next
              case MA: False
              with Cons Mm Mm_mapped ceq cM lA nA w m Mn show ?thesis
                unfolding defs Let_def lb
                apply (cases M')
                by (simp_all add: nlim nth_append list_update_append butlast_append_two del: walkBackToPredecessor.simps)
            qed
          next
            case cne: False
            show ?thesis
            proof (cases M' rule: rev_cases)
              case Nil
              with Cons Mm Mm_mapped cne lA nA wT m r show ?thesis
                unfolding defs Let_def lb
                by (simp add: nlim nth_append list_update_append del: walkBackToPredecessor.simps)
            next
              case (snoc M'' l)
              show ?thesis
              proof (cases "Unmapped cfg (last A)")
                case UA: True
                with snoc Cons Mm Mm_mapped cne lA nA wT m r Mn show ?thesis
                  unfolding defs Let_def lb
                  apply (cases M'')
                  by (simp_all add: nlim nth_append list_update_append butlast_append_two del: walkBackToPredecessor.simps)
              next
                case MA: False
                with snoc Cons Mm Mm_mapped cne lA nA wT m r Mn show ?thesis
                  unfolding defs Let_def lb
                  apply (cases M'')
                  by (simp_all add: nlim nth_append list_update_append butlast_append_two del: walkBackToPredecessor.simps)
              qed
            qed
          qed
        qed
      qed
    qed
  qed
qed




subsection \<open>The block-vector invariant\<close>

text \<open>
  The vector is never empty, its first block is the default block at \<^verbatim>\<open>UnmappedVa\<close>, the
  blocks are strictly sorted by virtual address, and the last block is unmapped and starts
  at or below \<^verbatim>\<open>vaLimit\<close>.
\<close>

definition wellFormedBlocks :: "Params \<Rightarrow> Block list \<Rightarrow> bool" where
  "wellFormedBlocks cfg blocks =
     (blocks \<noteq> [] \<and> virt (hd blocks) = UnmappedVa cfg \<and> sortedBlocks blocks
      \<and> Unmapped cfg (last blocks) \<and> virt (last blocks) \<le> vaLimit cfg)"

lemma unmapSplit_sorted:
  assumes s: "sortedBlocks (A @ M @ C)"
      and A: "A \<noteq> []" "\<forall>b\<in>set A. virt b < v"
      and M: "\<forall>b\<in>set M. v \<le> virt b \<and> virt b < v + n"
      and C: "\<forall>b\<in>set C. v + n \<le> virt b"
      and r: "v < v + n"
      and R: "unmapSplit cfg A M C v (v + n) = Inr R"
  shows "sortedBlocks R"
proof -
  have AM: "\<forall>a\<in>set A. \<forall>b\<in>set M. virt a < virt b" using s by (simp add: sortedBlocks_def sorted_wrt_append)
  have AC: "\<forall>a\<in>set A. \<forall>b\<in>set C. virt a < virt b" using s by (simp add: sortedBlocks_def sorted_wrt_append)
  have MC: "\<forall>a\<in>set M. \<forall>b\<in>set C. virt a < virt b" using s by (simp add: sortedBlocks_def sorted_wrt_append)
  have sA: "sorted_wrt (\<lambda>a b. virt a < virt b) A" and sM: "sorted_wrt (\<lambda>a b. virt a < virt b) M"
   and sC: "sorted_wrt (\<lambda>a b. virt a < virt b) C"
    using s by (simp_all add: sortedBlocks_def sorted_wrt_append)
  have Cgt: "\<forall>b\<in>set C. v < virt b" using C r by (auto intro: less_le_trans)
  have Cstrict: "C \<noteq> [] \<longrightarrow> virt (hd C) \<noteq> v + n \<longrightarrow> (\<forall>b\<in>set C. v + n < virt b)"
    using C sC by (cases C) (auto simp: le_less intro: less_trans)
  have Alt: "\<forall>a\<in>set A. virt a < v + n" using A r by (auto intro: less_trans)
  have Mmem: "M \<noteq> [] \<Longrightarrow> last M \<in> set M \<and> hd M \<in> set M" by simp
  have Mbl: "butlast M \<noteq> [] \<Longrightarrow> last (butlast M) \<in> set M" by (meson in_set_butlastD last_in_set)
  show ?thesis
    using R AM AC MC sA sM sC Cgt A M r Mmem Mbl Cstrict Alt
    unfolding unmapSplit_def sortedBlocks_def Let_def
    apply (auto split: if_splits list.splits simp: sorted_wrt_append)
    done
qed

lemma unmapSplit_ends:
  assumes A: "A \<noteq> []" "\<forall>b\<in>set A. virt b < v"
      and l: "Unmapped cfg (last (A @ M @ C))" "virt (last (A @ M @ C)) \<le> vaLimit cfg"
      and r: "v < v + n" "v + n \<le> vaLimit cfg"
      and R: "unmapSplit cfg A M C v (v + n) = Inr R"
  shows "R \<noteq> [] \<and> hd R = hd A \<and> Unmapped cfg (last R) \<and> virt (last R) \<le> vaLimit cfg"
proof -
  have vl: "v \<le> vaLimit cfg" using r by (auto intro: less_imp_le order.trans)
  have "virt (last A) < v" using A last_in_set by blast
  then have la: "virt (last A) \<le> vaLimit cfg" using vl by (auto intro: less_imp_le order.trans)
  show ?thesis
    using R A l r vl la
    unfolding unmapSplit_def Let_def
    by (auto split: if_splits list.splits simp: Unmapped_def last_append)
qed

lemma mapTail_sorted:
  assumes s: "sortedBlocks (A @ M @ C)"
      and A: "A \<noteq> []" "\<forall>b\<in>set A. virt b < v"
      and C: "\<forall>b\<in>set C. v + n \<le> virt b"
      and r: "v < v + n"
  shows "sortedBlocks (A @ Block v p e # mapTail cfg A M C (v + n))"
proof -
  have sA: "sorted_wrt (\<lambda>a b. virt a < virt b) A" and sC: "sorted_wrt (\<lambda>a b. virt a < virt b) C"
    using s by (simp_all add: sortedBlocks_def sorted_wrt_append)
  have AC: "\<forall>a\<in>set A. \<forall>b\<in>set C. virt a < virt b" using s by (simp add: sortedBlocks_def sorted_wrt_append)
  have Cgt: "\<forall>b\<in>set C. v < virt b" using C r by (auto intro: less_le_trans)
  have Cstrict: "C \<noteq> [] \<longrightarrow> virt (hd C) \<noteq> v + n \<longrightarrow> (\<forall>b\<in>set C. v + n < virt b)"
    using C sC by (cases C) (auto simp: le_less intro: less_trans)
  have Alt: "\<forall>a\<in>set A. virt a < v + n" using A r by (auto intro: less_trans)
  show ?thesis
    using sA sC AC Cgt Cstrict Alt A r
    unfolding mapTail_def sortedBlocks_def
    by (auto split: list.splits simp: sorted_wrt_append)
qed

lemma mapTail_ends:
  assumes A: "A \<noteq> []"
      and l: "Unmapped cfg (last (A @ M @ C))" "virt (last (A @ M @ C)) \<le> vaLimit cfg"
      and r: "v + n \<le> vaLimit cfg"
  shows "hd (A @ Block v p e # mapTail cfg A M C (v + n)) = hd A
         \<and> Unmapped cfg (last (A @ Block v p e # mapTail cfg A M C (v + n)))
         \<and> virt (last (A @ Block v p e # mapTail cfg A M C (v + n))) \<le> vaLimit cfg"
  using A l r unfolding mapTail_def
  by (auto split: list.splits if_splits simp: Unmapped_def last_append)

lemma wellFormedBlocks_split:
  assumes wf: "wellFormedBlocks cfg bs" and v: "UnmappedVa cfg < v"
  shows "partA bs v \<noteq> []" "hd (partA bs v) = hd bs"
        "sortedBlocks (partA bs v @ partM bs v e @ partC bs v e)"
        "Unmapped cfg (last (partA bs v @ partM bs v e @ partC bs v e))"
        "virt (last (partA bs v @ partM bs v e @ partC bs v e)) \<le> vaLimit cfg"
proof -
  have "bs \<noteq> []" "virt (hd bs) < v" using wf v by (simp_all add: wellFormedBlocks_def)
  then show ne: "partA bs v \<noteq> []" by (rule partA_nonempty)
  have "bs = partA bs v @ (partM bs v e @ partC bs v e)" by (simp add: part_append)
  then have "hd bs = hd (partA bs v @ (partM bs v e @ partC bs v e))" by simp
  then show "hd (partA bs v) = hd bs" using ne by simp
  show "sortedBlocks (partA bs v @ partM bs v e @ partC bs v e)"
       "Unmapped cfg (last (partA bs v @ partM bs v e @ partC bs v e))"
       "virt (last (partA bs v @ partM bs v e @ partC bs v e)) \<le> vaLimit cfg"
    using wf by (simp_all only: part_append wellFormedBlocks_def)
qed

lemma MapLocked_wellFormedBlocks:
  assumes wf: "wellFormedBlocks cfg bs"
      and r: "UnmappedVa cfg < v" "v < v + n" "v + n \<le> vaLimit cfg"
  shows "\<exists>bs'. MapLocked cfg bs v p n e = Inr bs' \<and> wellFormedBlocks cfg bs'"
proof -
  let ?A = "partA bs v" and ?M = "partM bs v (v + n)" and ?C = "partC bs v (v + n)"
  let ?R = "?A @ Block v p e # mapTail cfg ?A ?M ?C (v + n)"
  note sp = wellFormedBlocks_split[OF wf r(1)]
  have sb: "sortedBlocks bs" using wf by (simp add: wellFormedBlocks_def)
  have "MapLocked cfg (?A @ ?M @ ?C) v p n e = Inr ?R"
    using sp(1) partA_less partM_bounds[OF sb] partC_ge[OF sb] r(2,3) by (rule MapLocked_split)
  then have eq: "MapLocked cfg bs v p n e = Inr ?R" by (simp only: part_append)
  have "sortedBlocks ?R"
    using sp(3) sp(1) partA_less partC_ge[OF sb] r(2) by (rule mapTail_sorted)
  moreover have "hd ?R = hd ?A \<and> Unmapped cfg (last ?R) \<and> virt (last ?R) \<le> vaLimit cfg"
    using sp(1) sp(4) sp(5) r(3) by (rule mapTail_ends)
  moreover have "virt (hd bs) = UnmappedVa cfg" using wf by (simp add: wellFormedBlocks_def)
  ultimately have "wellFormedBlocks cfg ?R"
    using sp(2) by (simp add: wellFormedBlocks_def)
  with eq show ?thesis by blast
qed

lemma UnmapLocked_wellFormedBlocks:
  assumes wf: "wellFormedBlocks cfg bs"
      and r: "UnmappedVa cfg < v" "v < v + n" "v + n \<le> vaLimit cfg"
      and R: "UnmapLocked cfg bs v n = Inr bs'"
  shows "wellFormedBlocks cfg bs'"
proof -
  let ?A = "partA bs v" and ?M = "partM bs v (v + n)" and ?C = "partC bs v (v + n)"
  note sp = wellFormedBlocks_split[OF wf r(1)]
  have sb: "sortedBlocks bs" using wf by (simp add: wellFormedBlocks_def)
  have "UnmapLocked cfg (?A @ ?M @ ?C) v n = unmapSplit cfg ?A ?M ?C v (v + n)"
    using sp(1) partA_less partM_bounds[OF sb] partC_ge[OF sb] r(2,3) by (rule UnmapLocked_split)
  then have eq: "unmapSplit cfg ?A ?M ?C v (v + n) = Inr bs'" using R by (simp only: part_append)
  have "sortedBlocks bs'"
    using sp(3) sp(1) partA_less partM_bounds[OF sb] partC_ge[OF sb] r(2) eq by (rule unmapSplit_sorted)
  moreover have "bs' \<noteq> [] \<and> hd bs' = hd ?A \<and> Unmapped cfg (last bs') \<and> virt (last bs') \<le> vaLimit cfg"
    using sp(1) partA_less sp(4) sp(5) r(2,3) eq by (rule unmapSplit_ends)
  moreover have "virt (hd bs) = UnmappedVa cfg" using wf by (simp add: wellFormedBlocks_def)
  ultimately show ?thesis
    using sp(2) by (simp add: wellFormedBlocks_def)
qed


subsection \<open>Sequences of Map and Unmap calls\<close>

text \<open>
  A sequence of calls stops at the first exception, which is fatal to the caller. A call is
  valid when its range is not empty, starts above \<^verbatim>\<open>UnmappedVa\<close>, does not wrap and ends
  at or below \<^verbatim>\<open>vaLimit\<close>.
\<close>

datatype MapOp = Map VaType PaType VaType bool | Unmap VaType VaType

fun applyOp :: "Params \<Rightarrow> Block list \<Rightarrow> MapOp \<Rightarrow> error + Block list" where
  "applyOp cfg blocks (Map v p n e) = MapLocked cfg blocks v p n e"
| "applyOp cfg blocks (Unmap v n) = UnmapLocked cfg blocks v n"

fun applyOps :: "Params \<Rightarrow> Block list \<Rightarrow> MapOp list \<Rightarrow> error + Block list" where
  "applyOps cfg blocks [] = Inr blocks"
| "applyOps cfg blocks (x # xs) =
     (case applyOp cfg blocks x of Inl err \<Rightarrow> Inl err | Inr blocks' \<Rightarrow> applyOps cfg blocks' xs)"

definition validRange :: "Params \<Rightarrow> VaType \<Rightarrow> VaType \<Rightarrow> bool" where
  "validRange cfg v n = (UnmappedVa cfg < v \<and> v < v + n \<and> v + n \<le> vaLimit cfg)"

fun validOp :: "Params \<Rightarrow> MapOp \<Rightarrow> bool" where
  "validOp cfg (Map v p n e) = validRange cfg v n"
| "validOp cfg (Unmap v n) = validRange cfg v n"

definition noAdjacentUnmapped :: "Params \<Rightarrow> Block list \<Rightarrow> bool" where
  "noAdjacentUnmapped cfg blocks =
     successively (\<lambda>a b. \<not> (Unmapped cfg a \<and> Unmapped cfg b)) blocks"

lemma initialBlocks_wellFormed:
  "UnmappedVa cfg \<le> vaLimit cfg \<Longrightarrow> wellFormedBlocks cfg (initialBlocks cfg)"
  by (simp add: wellFormedBlocks_def initialBlocks_def sortedBlocks_def Unmapped_def)

lemma applyOp_wellFormedBlocks:
  assumes "wellFormedBlocks cfg bs" "validOp cfg x" "applyOp cfg bs x = Inr bs'"
  shows "wellFormedBlocks cfg bs'"
proof (cases x)
  case (Map v p n e)
  with assms have r: "UnmappedVa cfg < v" "v < v + n" "v + n \<le> vaLimit cfg"
    by (simp_all add: validRange_def)
  from MapLocked_wellFormedBlocks[OF assms(1) r, of p e] assms(3) Map show ?thesis by auto
next
  case (Unmap v n)
  with assms have r: "UnmappedVa cfg < v" "v < v + n" "v + n \<le> vaLimit cfg"
    by (simp_all add: validRange_def)
  from UnmapLocked_wellFormedBlocks[OF assms(1) r] assms(3) Unmap show ?thesis by simp
qed

lemma applyOps_wellFormedBlocks:
  "wellFormedBlocks cfg bs \<Longrightarrow> \<forall>x\<in>set ops. validOp cfg x \<Longrightarrow> applyOps cfg bs ops = Inr bs'
   \<Longrightarrow> wellFormedBlocks cfg bs'"
proof (induction ops arbitrary: bs)
  case Nil
  then show ?case by simp
next
  case (Cons x xs)
  from Cons.prems(3) obtain bs1 where b1: "applyOp cfg bs x = Inr bs1" "applyOps cfg bs1 xs = Inr bs'"
    by (auto split: sum.splits)
  have "wellFormedBlocks cfg bs1"
    using Cons.prems(1,2) b1(1) by (auto intro: applyOp_wellFormedBlocks)
  then show ?case using Cons.IH[of bs1] Cons.prems(2) b1(2) by simp
qed

text \<open>
  C1 (amended). Starting from the freshly constructed map, after every sequence of Map and
  Unmap calls with valid ranges that runs to completion, the block vector is strictly
  sorted by virtual address and ends with an unmapped sentinel block that starts at or
  below the VA limit.
\<close>

theorem blocks_sorted_sentinel:
  assumes "UnmappedVa cfg \<le> vaLimit cfg"
      and "\<forall>x\<in>set ops. validOp cfg x"
      and "applyOps cfg (initialBlocks cfg) ops = Inr bs"
  shows "sortedBlocks bs \<and> bs \<noteq> [] \<and> Unmapped cfg (last bs) \<and> virt (last bs) \<le> vaLimit cfg"
  using applyOps_wellFormedBlocks[OF initialBlocks_wellFormed[OF assms(1)] assms(2,3)]
  by (simp add: wellFormedBlocks_def)

lemmas map_eval_defs = MapLocked_def MapLockedHead_def UnmapLocked_def UnmapLockedHead_def
  eraseBlocksWithEndUnmapped_def lower_bound_def insert_at_def erase_def Unmapped_def Mapped_def
  initialBlocks_def cfgMM_def

theorem blocks_sorted_sentinel_witness:
  "sortedBlocks [Block 0 0 False, Block 16 1000 False, Block 24 0 False, Block 32 2000 True, Block 48 0 False]
   \<and> Unmapped cfgMM (last [Block 0 0 False, Block 16 1000 False, Block 24 0 False, Block 32 2000 True, Block 48 0 False])
   \<and> virt (last [Block 0 0 False, Block 16 1000 False, Block 24 0 False, Block 32 2000 True, Block 48 0 False]) \<le> vaLimit cfgMM"
  using blocks_sorted_sentinel[of cfgMM "[Map 16 1000 16 False, Map 32 2000 16 True, Unmap 24 8]"
        "[Block 0 0 False, Block 16 1000 False, Block 24 0 False, Block 32 2000 True, Block 48 0 False]"]
  by (simp add: map_eval_defs validRange_def)

text \<open>
  C1 as stated fails for a range that starts at \<^verbatim>\<open>UnmappedVa\<close> (address 0) and for an empty
  range: both lie inside the VA limit, and both leave two blocks with the same virtual
  address.
\<close>

theorem map_at_origin_or_empty_unsorted:
  "MapLocked cfgMM (initialBlocks cfgMM) 0 5 10 False
     = Inr [Block 0 0 False, Block 0 5 False, Block 10 0 False]
   \<and> \<not> sortedBlocks [Block 0 0 False, Block 0 5 False, Block 10 0 False]
   \<and> MapLocked cfgMM (initialBlocks cfgMM) 10 5 0 False
     = Inr [Block 0 0 False, Block 10 5 False, Block 10 0 False]
   \<and> \<not> sortedBlocks [Block 0 0 False, Block 10 5 False, Block 10 0 False]"
  by (simp add: map_eval_defs sortedBlocks_def)

text \<open>
  C6. Two mappings \<open>[10, 20)\<close> and \<open>[30, 50)\<close> with an unmapped gap between them, then
  \<^verbatim>\<open>Unmap(10, 30)\<close>: the unmap reuses the block at 30 as the tail at 40, finds the start
  predecessor unmapped and erases from the start successor up to, but not including, the
  block before the tail. The unmapped gap block at 20 survives next to the unmapped first
  block, and no exception is raised.
\<close>

theorem unmap_leaves_adjacent_unmapped:
  "applyOps cfgMM (initialBlocks cfgMM) [Map 10 1000 10 False, Map 30 2000 20 False, Unmap 10 30]
     = Inr [Block 0 0 False, Block 20 0 False, Block 40 2010 False, Block 50 0 False]
   \<and> \<not> noAdjacentUnmapped cfgMM [Block 0 0 False, Block 20 0 False, Block 40 2010 False, Block 50 0 False]"
  by (simp add: map_eval_defs noAdjacentUnmapped_def)




subsection \<open>Querying the map\<close>

text \<open>
  The lookup every accessor starts with (\<^verbatim>\<open>std::upper_bound\<close>, then \<^verbatim>\<open>std::prev\<close>): the
  block that covers an address, and the backing of the address in it. \<open>None\<close> is an
  unmapped address.
\<close>

definition queryVa :: "Params \<Rightarrow> Block list \<Rightarrow> VaType \<Rightarrow> (PaType \<times> bool) option" where
  "queryVa cfg blocks a =
     (let successor = upper_bound blocks a;
          predecessor = blocks ! (successor - 1)
      in if Unmapped cfg predecessor then None
         else Some (if PaContigSplit cfg then phys predecessor + unat (a - virt predecessor)
                    else phys predecessor,
                    extraInfo predecessor))"

lemma upper_bound_append:
  "\<forall>b\<in>set X. virt b \<le> a \<Longrightarrow> \<forall>b\<in>set Y. a < virt b \<Longrightarrow> upper_bound (X @ Y) a = length X"
  by (cases Y) (auto simp: upper_bound_def takeWhile_append2 not_less takeWhile_eq_all_conv[THEN iffD2])

lemma queryVa_append:
  assumes "X \<noteq> []" "\<forall>b\<in>set X. virt b \<le> a" "\<forall>b\<in>set Y. a < virt b"
  shows "queryVa cfg (X @ Y) a =
           (if Unmapped cfg (last X) then None
            else Some (if PaContigSplit cfg then phys (last X) + unat (a - virt (last X))
                       else phys (last X), extraInfo (last X)))"
  using assms upper_bound_append[OF assms(2,3)]
  by (simp add: queryVa_def Let_def nth_append last_conv_nth)

lemma word_pred_facts:
  fixes x e y :: VaType
  assumes "e \<noteq> 0"
  shows "x < e \<Longrightarrow> x \<le> e - 1" "e \<le> y \<Longrightarrow> e - 1 < y"
  using assms by unat_arith+

lemma word_range_last:
  fixes v n :: VaType
  assumes "v < v + n"
  shows "v \<le> v + n - 1" "v + n - 1 < v + n" "v + n \<noteq> 0"
  using assms by unat_arith+


lemma mapTail_shape:
  assumes sC: "sortedBlocks C" and C: "\<forall>b\<in>set C. e \<le> virt b"
  shows "\<exists>c cs. mapTail cfg A M C e = c # cs \<and> virt c = e \<and> (\<forall>b\<in>set cs. e < virt b)
               \<and> sortedBlocks cs"
proof (cases C)
  case Nil
  then show ?thesis by (simp add: mapTail_def sortedBlocks_def)
next
  case (Cons c0 cs0)
  have gt: "\<forall>b\<in>set cs0. virt c0 < virt b" and s0: "sortedBlocks cs0"
    using sC Cons by (simp_all add: sortedBlocks_def)
  have c0: "e \<le> virt c0" using C Cons by simp
  show ?thesis
  proof (cases "virt c0 = e")
    case True
    with Cons gt s0 show ?thesis by (simp add: mapTail_def)
  next
    case False
    with c0 have "e < virt c0" by simp
    with gt have "\<forall>b\<in>set (c0 # cs0). e < virt b" by (auto intro: less_trans)
    with Cons False sC show ?thesis by (simp add: mapTail_def)
  qed
qed

text \<open>
  C2 (amended). On a well-formed block list without adjacent unmapped blocks, take a valid
  range \<open>[v, v + n)\<close> that is unmapped, and that is not both preceded by an unmapped address
  and directly followed by a mapped one. Then \<^verbatim>\<open>Map(v, p, n)\<close> with a mapped backing and
  \<^verbatim>\<open>Unmap(v, n)\<close> both succeed, and every address of the range queries as it did before
  the Map.
\<close>

theorem Map_then_Unmap_restores_unmapped:
  assumes wf: "wellFormedBlocks cfg bs" and na: "noAdjacentUnmapped cfg bs"
      and r: "validRange cfg v n" and p: "p \<noteq> UnmappedPa cfg"
      and before: "\<forall>a. v \<le> a \<and> a < v + n \<longrightarrow> queryVa cfg bs a = None"
      and noslip: "queryVa cfg bs (v - 1) \<noteq> None \<or> queryVa cfg bs (v + n) = None"
  shows "\<exists>bs1 bs2. MapLocked cfg bs v p n e = Inr bs1 \<and> UnmapLocked cfg bs1 v n = Inr bs2
           \<and> (\<forall>a. v \<le> a \<and> a < v + n \<longrightarrow> queryVa cfg bs2 a = queryVa cfg bs a)"
proof -
  let ?A = "partA bs v" and ?M = "partM bs v (v + n)" and ?C = "partC bs v (v + n)"
  let ?new = "Block v p e"
  have rr: "UnmappedVa cfg < v" "v < v + n" "v + n \<le> vaLimit cfg"
    using r by (simp_all add: validRange_def)
  have v0: "v \<noteq> 0" using rr(1) by auto
  note sp = wellFormedBlocks_split[OF wf rr(1)]
  have sb: "sortedBlocks bs" using wf by (simp add: wellFormedBlocks_def)
  have bs: "bs = ?A @ ?M @ ?C" by (simp add: part_append)
  note Aless = partA_less[of bs v]
  note Mb = partM_bounds[OF sb, of v "v + n"]
  note Cge = partC_ge[OF sb, of v "v + n"]
  have sAMC: "sortedBlocks (?A @ ?M @ ?C)" using sb by (simp only: part_append)
  have sC: "sortedBlocks ?C"
    using sAMC sortedBlocks_appendD[of "?A @ ?M" ?C] by simp
  \<comment> \<open>the call to Map\<close>
  have map: "MapLocked cfg bs v p n e = Inr (?A @ ?new # mapTail cfg ?A ?M ?C (v + n))"
    using MapLocked_split[OF sp(1) Aless Mb Cge rr(2,3), of p e] by (simp only: part_append)
  obtain c cs where T: "mapTail cfg ?A ?M ?C (v + n) = c # cs" "virt c = v + n"
      "\<forall>b\<in>set cs. v + n < virt b" "sortedBlocks cs"
    using mapTail_shape[OF sC Cge] by blast
  \<comment> \<open>what the hypotheses say about the blocks around the range\<close>
  note wl = word_range_last[OF rr(2)]
  have AMne: "?A @ ?M \<noteq> []" using sp(1) by simp
  have predU: "Unmapped cfg (last (?A @ ?M))"
  proof -
    have 1: "\<forall>b\<in>set (?A @ ?M). virt b \<le> v + n - 1"
      using Aless Mb rr(2) word_pred_facts(1)[OF wl(3)] by (auto intro: less_trans)
    have 2: "\<forall>b\<in>set ?C. v + n - 1 < virt b"
      using Cge word_pred_facts(2)[OF wl(3)] by auto
    have "queryVa cfg ((?A @ ?M) @ ?C) (v + n - 1) = None"
      using before wl(1,2) by (simp add: part_append)
    then show ?thesis
      unfolding queryVa_append[OF AMne 1 2] by (simp split: if_splits)
  qed
  have lastA: "queryVa cfg bs (v - 1) \<noteq> None \<Longrightarrow> \<not> Unmapped cfg (last ?A)"
  proof -
    assume q: "queryVa cfg bs (v - 1) \<noteq> None"
    have 1: "\<forall>b\<in>set ?A. virt b \<le> v - 1"
      using Aless word_pred_facts(1)[OF v0] by auto
    have 2: "\<forall>b\<in>set (?M @ ?C). v - 1 < virt b"
    proof
      fix b assume "b \<in> set (?M @ ?C)"
      then have "v \<le> virt b" using Mb Cge rr(2) by (auto intro: less_imp_le order.trans)
      then show "v - 1 < virt b" by (rule word_pred_facts(2)[OF v0])
    qed
    have "queryVa cfg (?A @ (?M @ ?C)) (v - 1) \<noteq> None" using q by (simp add: part_append)
    then show ?thesis unfolding queryVa_append[OF sp(1) 1 2] by (simp split: if_splits)
  qed
  have atEnd: "\<And>c0 cs0. ?C = c0 # cs0 \<Longrightarrow> virt c0 = v + n \<Longrightarrow> queryVa cfg bs (v + n) = None
                 \<Longrightarrow> Unmapped cfg c0"
  proof -
    fix c0 cs0 assume C0: "?C = c0 # cs0" "virt c0 = v + n" and q: "queryVa cfg bs (v + n) = None"
    have 1: "\<forall>b\<in>set ((?A @ ?M) @ [c0]). virt b \<le> v + n"
      using Aless Mb rr(2) C0(2) by (auto intro: less_imp_le less_trans)
    have "sortedBlocks (c0 # cs0)" using sC C0(1) by simp
    then have 2: "\<forall>b\<in>set cs0. v + n < virt b" using C0(2) by (simp add: sortedBlocks_def)
    have "bs = ((?A @ ?M) @ [c0]) @ cs0" using bs C0(1) by simp
    then have q': "queryVa cfg (((?A @ ?M) @ [c0]) @ cs0) (v + n) = None" using q by simp
    have ne: "(?A @ ?M) @ [c0] \<noteq> []" by simp
    show "Unmapped cfg c0"
      using q' unfolding queryVa_append[OF ne 1 2] by (simp split: if_splits)
  qed
  have naAMC: "noAdjacentUnmapped cfg (?A @ ?M @ ?C)" using na by (simp only: part_append)
  \<comment> \<open>the tail block is mapped only in the excluded case\<close>
  have H2: "\<not> (\<not> Unmapped cfg c \<and> Unmapped cfg (last ?A))"
  proof (cases ?C)
    case Nil
    have "Unmapped cfg (last (?A @ ?M))" using predU .
    with Nil T(1) show ?thesis
      by (auto simp: mapTail_def Unmapped_def split: if_splits)
  next
    case (Cons c0 cs0)
    show ?thesis
    proof (cases "virt c0 = v + n")
      case True
      with Cons T(1) have "c = c0" by (simp add: mapTail_def)
      with noslip lastA atEnd[OF Cons True] show ?thesis by auto
    next
      case False
      with Cons T(1) predU show ?thesis
        by (auto simp: mapTail_def tailPhysMap_def Unmapped_def)
    qed
  qed
  \<comment> \<open>two unmapped blocks never follow the range\<close>
  have H1: "\<not> (Unmapped cfg c \<and> cs \<noteq> [] \<and> Unmapped cfg (hd cs))"
  proof (cases ?C)
    case Nil
    with T(1) show ?thesis by (simp add: mapTail_def)
  next
    case (Cons c0 cs0)
    show ?thesis
    proof (cases "virt c0 = v + n")
      case True
      with Cons T(1) have "c = c0" "cs = cs0" by (simp_all add: mapTail_def)
      moreover have "noAdjacentUnmapped cfg (c0 # cs0)"
        using naAMC Cons by (simp add: noAdjacentUnmapped_def successively_append_iff)
      ultimately show ?thesis
        by (cases cs0) (auto simp: noAdjacentUnmapped_def)
    next
      case False
      with Cons T(1) have cs: "cs = c0 # cs0" by (simp add: mapTail_def)
      have "noAdjacentUnmapped cfg ((?A @ ?M) @ c0 # cs0)" using naAMC Cons by simp
      then have "\<not> (Unmapped cfg (last (?A @ ?M)) \<and> Unmapped cfg c0)"
        using AMne unfolding noAdjacentUnmapped_def successively_append_iff by auto
      with predU cs show ?thesis by simp
    qed
  qed
  \<comment> \<open>the call to Unmap\<close>
  have newb: "\<forall>b\<in>set [?new]. v \<le> virt b \<and> virt b < v + n" using rr(2) by simp
  have Tge: "\<forall>b\<in>set (c # cs). v + n \<le> virt b" using T(2,3) by (auto intro: less_imp_le)
  have unmap: "UnmapLocked cfg (?A @ ?new # c # cs) v n = unmapSplit cfg ?A [?new] (c # cs) v (v + n)"
    using UnmapLocked_split[OF sp(1) Aless newb Tge rr(2,3)] by simp
  have nm: "\<not> Unmapped cfg ?new" using p by (simp add: Unmapped_def)
  define bs2 where "bs2 =
     (if Unmapped cfg c then (if Unmapped cfg (last ?A) then ?A @ cs
                              else ?A @ Block v (phys c) (extraInfo c) # cs)
      else ?A @ Block v (UnmappedPa cfg) e # c # cs)"
  have res: "unmapSplit cfg ?A [?new] (c # cs) v (v + n) = Inr bs2"
    using nm T(2) H1 H2 by (auto simp: unmapSplit_def bs2_def Let_def)
  have q2: "queryVa cfg bs2 a = None" if a: "v \<le> a" "a < v + n" for a
  proof -
    have Aa: "\<forall>b\<in>set ?A. virt b \<le> a" using Aless a(1) by (auto intro: less_imp_le less_le_trans)
    have csa: "\<forall>b\<in>set cs. a < virt b" using T(3) a(2) by (auto intro: less_trans)
    have ca: "\<forall>b\<in>set (c # cs). a < virt b" using csa T(2) a(2) by simp
    show ?thesis
    proof (cases "Unmapped cfg c")
      case True
      show ?thesis
      proof (cases "Unmapped cfg (last ?A)")
        case UA: True
        with True have "bs2 = ?A @ cs" by (simp add: bs2_def)
        then show ?thesis using queryVa_append[OF sp(1) Aa csa] UA by simp
      next
        case False
        with True have b: "bs2 = (?A @ [Block v (phys c) (extraInfo c)]) @ cs" by (simp add: bs2_def)
        have "\<forall>b\<in>set (?A @ [Block v (phys c) (extraInfo c)]). virt b \<le> a" using Aa a(1) by simp
        from queryVa_append[OF _ this csa] True show ?thesis
          unfolding b by (simp add: Unmapped_def)
      qed
    next
      case False
      then have b: "bs2 = (?A @ [Block v (UnmappedPa cfg) e]) @ c # cs" by (simp add: bs2_def)
      have "\<forall>b\<in>set (?A @ [Block v (UnmappedPa cfg) e]). virt b \<le> a" using Aa a(1) by simp
      from queryVa_append[OF _ this ca] show ?thesis
        unfolding b by (simp add: Unmapped_def)
    qed
  qed
  have "UnmapLocked cfg (?A @ ?new # mapTail cfg ?A ?M ?C (v + n)) v n = Inr bs2"
    using unmap res T(1) by simp
  moreover have "\<forall>a. v \<le> a \<and> a < v + n \<longrightarrow> queryVa cfg bs2 a = queryVa cfg bs a"
    using q2 before by simp
  ultimately show ?thesis using map by blast
qed


theorem Map_then_Unmap_restores_unmapped_witness:
  "\<exists>bs1 bs2. MapLocked cfgMM (initialBlocks cfgMM) 16 1000 16 False = Inr bs1
      \<and> UnmapLocked cfgMM bs1 16 16 = Inr bs2
      \<and> (\<forall>a. 16 \<le> a \<and> a < 16 + 16 \<longrightarrow> queryVa cfgMM bs2 a = queryVa cfgMM (initialBlocks cfgMM) a)"
  using Map_then_Unmap_restores_unmapped[of cfgMM "initialBlocks cfgMM" 16 16 1000 False]
  by (simp add: wellFormedBlocks_def noAdjacentUnmapped_def validRange_def sortedBlocks_def
        initialBlocks_def cfgMM_def Unmapped_def queryVa_def upper_bound_def)

text \<open>
  C2 as stated fails on a range that was mapped before: Map overwrites the old mapping and
  Unmap leaves the range unmapped.
\<close>

theorem Map_then_Unmap_drops_previous_mapping:
  "applyOps cfgMM [Block 0 0 False, Block 10 1000 False, Block 20 0 False]
       [Map 10 500 10 False, Unmap 10 10] = Inr [Block 0 0 False]
   \<and> queryVa cfgMM [Block 0 0 False, Block 10 1000 False, Block 20 0 False] 10 = Some (1000, False)
   \<and> queryVa cfgMM [Block 0 0 False] 10 = None"
  by (simp add: map_eval_defs queryVa_def upper_bound_def)

text \<open>
  The case the amended claim leaves out: an unmapped range preceded by unmapped space and
  directly followed by a mapping. Unmap takes the branch that erases up to the block before
  the end successor, erases nothing, and the range stays mapped.
\<close>

lemma Unmap_keeps_range_mapped:
  "applyOps cfgMM [Block 0 0 False, Block 20 2000 False, Block 30 0 False]
       [Map 10 500 10 False, Unmap 10 10]
     = Inr [Block 0 0 False, Block 10 500 False, Block 20 2000 False, Block 30 0 False]
   \<and> queryVa cfgMM [Block 0 0 False, Block 20 2000 False, Block 30 0 False] 10 = None
   \<and> queryVa cfgMM [Block 0 0 False, Block 10 500 False, Block 20 2000 False, Block 30 0 False] 10
       = Some (500, False)"
  by (simp add: map_eval_defs queryVa_def upper_bound_def)

section \<open>Translating memory accessor (FlatMemoryManager)\<close>

text \<open>
  Host memory is a function from host addresses to bytes. The host state threaded through
  an accessor is the memory together with the spans handed to \<^verbatim>\<open>cpuAccessCallback\<close>, in
  call order. An iterator into the block vector is the suffix of the vector it points at;
  \<^verbatim>\<open>predecessor = successor++\<close> drops the head of the suffix. A value read through
  \<^verbatim>\<open>blocks.end()\<close> (\<^verbatim>\<open>successor->virt\<close> past the last block) is unspecified: it is
  \<open>None\<close>, and an accessor that has to use it, or that steps its predecessor past the last
  block, ends with \<open>IteratorOutOfRange\<close>. An accessor returns the host state it leaves
  behind together with the exception it raised, if any.
\<close>

type_synonym Memory = "nat \<Rightarrow> 8 word"
type_synonym Host = "Memory \<times> (PaType \<times> VaType) list"

definition memcpy :: "Memory \<Rightarrow> nat \<Rightarrow> nat \<Rightarrow> nat \<Rightarrow> Memory" where
  "memcpy m dst src n = (\<lambda>a. if dst \<le> a \<and> a < dst + n then m (src + (a - dst)) else m a)"

definition memset0 :: "Memory \<Rightarrow> nat \<Rightarrow> nat \<Rightarrow> Memory" where
  "memset0 m dst n = (\<lambda>a. if dst \<le> a \<and> a < dst + n then 0 else m a)"

fun successorVirt :: "Block list \<Rightarrow> VaType option" where
  "successorVirt [] = None"
| "successorVirt (b # bs) = Some (virt b)"

fun predecessorPhys :: "Block list \<Rightarrow> PaType" where
  "predecessorPhys [] = 0"
| "predecessorPhys (b # bs) = phys b"

definition blockSize :: "Block list \<Rightarrow> VaType \<Rightarrow> VaType \<Rightarrow> VaType option" where
  "blockSize successor start sz = map_option (\<lambda>sv. min (sv - start) sz) (successorVirt successor)"

fun ReadLoop :: "Block list \<Rightarrow> Host \<Rightarrow> nat \<Rightarrow> VaType \<Rightarrow> PaType \<Rightarrow> VaType option
                 \<Rightarrow> Host \<times> error option" where
  "ReadLoop [] host destination sz blockPhys blockReadSize =
     (if sz = 0 then (host, None) else (host, Some IteratorOutOfRange))"
| "ReadLoop (predecessor # successor) host destination sz blockPhys blockReadSize =
     (if sz = 0 then (host, None)
      else if phys predecessor = 0 then (host, Some (PageFault (virt predecessor)))
      else
        (case blockReadSize of
           None \<Rightarrow> (host, Some IteratorOutOfRange)
         | Some n \<Rightarrow>
             let host' =
                   (if extraInfo predecessor
                    then (memset0 (fst host) destination (unat n), snd host)
                    else (memcpy (fst host) destination blockPhys (unat n),
                          snd host @ [(blockPhys, n)]))
             in
             if sz - n \<noteq> 0 then
               ReadLoop successor host' (destination + unat n) (sz - n)
                 (predecessorPhys successor)
                 (case successor of [] \<Rightarrow> None
                  | p # s \<Rightarrow> blockSize s (virt p) (sz - n))
             else (host', None)))"

definition Read :: "Block list \<Rightarrow> Host \<Rightarrow> nat \<Rightarrow> VaType \<Rightarrow> VaType \<Rightarrow> Host \<times> error option" where
  "Read blocks host destination v sz =
     (let successor = upper_bound blocks v in
      if successor = 0 then (host, Some IteratorOutOfRange)
      else
        let predecessor = blocks ! (successor - 1);
            blockPhys = phys predecessor + unat (v - virt predecessor);
            blockReadSize = blockSize (drop successor blocks) v sz
        in ReadLoop (drop (successor - 1) blocks) host destination sz blockPhys blockReadSize)"

fun WriteLoop :: "Block list \<Rightarrow> Host \<Rightarrow> nat \<Rightarrow> VaType \<Rightarrow> PaType \<Rightarrow> VaType option
                 \<Rightarrow> Host \<times> error option" where
  "WriteLoop [] host source sz blockPhys blockWriteSize =
     (if sz = 0 then (host, None) else (host, Some IteratorOutOfRange))"
| "WriteLoop (predecessor # successor) host source sz blockPhys blockWriteSize =
     (if sz = 0 then (host, None)
      else if phys predecessor = 0 then (host, Some (PageFault (virt predecessor)))
      else
        (case blockWriteSize of
           None \<Rightarrow> (host, Some IteratorOutOfRange)
         | Some n \<Rightarrow>
             let host' =
                   (if \<not> extraInfo predecessor
                    then (memcpy (fst host) blockPhys source (unat n),
                          snd host @ [(blockPhys, n)])
                    else host)
             in
             if sz - n \<noteq> 0 then
               WriteLoop successor host' (source + unat n) (sz - n)
                 (predecessorPhys successor)
                 (case successor of [] \<Rightarrow> None
                  | p # s \<Rightarrow> blockSize s (virt p) (sz - n))
             else (host', None)))"

definition Write :: "Block list \<Rightarrow> Host \<Rightarrow> VaType \<Rightarrow> nat \<Rightarrow> VaType \<Rightarrow> Host \<times> error option" where
  "Write blocks host v source sz =
     (let successor = upper_bound blocks v in
      if successor = 0 then (host, Some IteratorOutOfRange)
      else
        let predecessor = blocks ! (successor - 1);
            blockPhys = phys predecessor + unat (v - virt predecessor);
            blockWriteSize = blockSize (drop successor blocks) v sz
        in WriteLoop (drop (successor - 1) blocks) host source sz blockPhys blockWriteSize)"

definition remaining :: "Block list \<Rightarrow> VaType \<Rightarrow> VaType option" where
  "remaining successor start = map_option (\<lambda>sv. sv - start) (successorVirt successor)"

definition min3 :: "VaType option \<Rightarrow> VaType option \<Rightarrow> VaType \<Rightarrow> VaType option" where
  "min3 a b c = (case (a, b) of (Some x, Some y) \<Rightarrow> Some (min x (min y c)) | _ \<Rightarrow> None)"

text \<open>
  The loop of \<^verbatim>\<open>Copy\<close> advances two cursors. Every iteration but the last advances at
  least one of them, and a cursor stepped past the last block ends the loop, so twice the
  number of blocks is enough fuel; \<open>None\<close> is a loop that is still running when the fuel
  is used up.
\<close>

fun CopyLoop :: "nat \<Rightarrow> Block list \<Rightarrow> Block list \<Rightarrow> Host \<Rightarrow> VaType \<Rightarrow> PaType \<Rightarrow> PaType
                 \<Rightarrow> VaType option \<Rightarrow> VaType option \<Rightarrow> VaType option
                 \<Rightarrow> (Host \<times> error option) option" where
  "CopyLoop 0 srcBlocks dstBlocks host sz srcBlockPhys dstBlockPhys srcRem dstRem blockCopySize = None"
| "CopyLoop (Suc fuel) srcBlocks dstBlocks host sz srcBlockPhys dstBlockPhys srcRem dstRem blockCopySize =
     (if sz = 0 then Some (host, None)
      else
        (case (srcBlocks, dstBlocks) of
           ([], _) \<Rightarrow> Some (host, Some IteratorOutOfRange)
         | (_, []) \<Rightarrow> Some (host, Some IteratorOutOfRange)
         | (srcPredecessor # srcSuccessor, dstPredecessor # dstSuccessor) \<Rightarrow>
             if phys srcPredecessor = 0 then Some (host, Some (PageFault (virt srcPredecessor)))
             else if phys dstPredecessor = 0 then Some (host, Some (PageFault (virt dstPredecessor)))
             else
               (case (blockCopySize, srcRem, dstRem) of
                  (Some n, Some sr, Some dr) \<Rightarrow>
                    let host' =
                          (if extraInfo srcPredecessor
                           then (memset0 (fst host) dstBlockPhys (unat n), snd host)
                           else (memcpy (fst host) dstBlockPhys srcBlockPhys (unat n),
                                 snd host @ [(dstBlockPhys, n), (srcBlockPhys, n)]));
                        sz' = sz - n; sr' = sr - n; dr' = dr - n
                    in
                    if sz' \<noteq> 0 then
                      let srcAdv = (sr' = 0);
                          srcBlocks1 = (if srcAdv then srcSuccessor else srcBlocks);
                          srcPhys1 = (if srcAdv then predecessorPhys srcSuccessor
                                      else srcBlockPhys + unat n);
                          srcRem1 = (if srcAdv
                                     then (case srcSuccessor of [] \<Rightarrow> None
                                           | p # s \<Rightarrow> remaining s (virt p))
                                     else Some sr');
                          copy1 = (if srcAdv then min3 srcRem1 (Some dr') sz' else Some n);
                          dstAdv = (dr' = 0);
                          dstBlocks1 = (if dstAdv then dstSuccessor else dstBlocks);
                          dstPhys1 = (if dstAdv then predecessorPhys dstSuccessor
                                      else dstBlockPhys + unat n);
                          dstRem1 = (if dstAdv
                                     then (case dstSuccessor of [] \<Rightarrow> None
                                           | p # s \<Rightarrow> remaining s (virt p))
                                     else Some dr');
                          copy2 = (if dstAdv then min3 srcRem1 dstRem1 sz' else copy1)
                      in CopyLoop fuel srcBlocks1 dstBlocks1 host' sz' srcPhys1 dstPhys1
                           srcRem1 dstRem1 copy2
                    else Some (host', None)
                | _ \<Rightarrow> Some (host, Some IteratorOutOfRange))))"

definition Copy :: "Block list \<Rightarrow> Host \<Rightarrow> VaType \<Rightarrow> VaType \<Rightarrow> VaType \<Rightarrow> (Host \<times> error option) option" where
  "Copy blocks host dst src sz =
     (let srcSuccessor = upper_bound blocks src;
          dstSuccessor = upper_bound blocks dst
      in
      if srcSuccessor = 0 \<or> dstSuccessor = 0 then Some (host, Some IteratorOutOfRange)
      else
        let srcPredecessor = blocks ! (srcSuccessor - 1);
            dstPredecessor = blocks ! (dstSuccessor - 1);
            srcBlockPhys = phys srcPredecessor + unat (src - virt srcPredecessor);
            dstBlockPhys = phys dstPredecessor + unat (dst - virt dstPredecessor);
            srcBlockRemainingSize = remaining (drop srcSuccessor blocks) src;
            dstBlockRemainingSize = remaining (drop dstSuccessor blocks) dst;
            blockCopySize = min3 srcBlockRemainingSize dstBlockRemainingSize sz
        in CopyLoop (2 * length blocks) (drop (srcSuccessor - 1) blocks)
             (drop (dstSuccessor - 1) blocks) host sz srcBlockPhys dstBlockPhys
             srcBlockRemainingSize dstBlockRemainingSize blockCopySize)"


subsection \<open>Page faults\<close>

lemma word_step_facts:
  fixes cur x sz :: VaType
  assumes "cur < x" "x \<le> cur + (sz - 1)" "cur \<le> cur + (sz - 1)" "sz \<noteq> 0"
  shows "min (x - cur) sz = x - cur" "sz - (x - cur) \<noteq> 0" "x + (sz - (x - cur) - 1) = cur + (sz - 1)"
        "x - cur \<noteq> 0"
proof -
  have d: "x - cur \<le> sz - 1" using assms by unat_arith
  have "sz - 1 < sz" using assms(4) by unat_arith
  with d have lt: "x - cur < sz" by simp
  then show "min (x - cur) sz = x - cur" by (simp add: min_absorb1 less_imp_le)
  show "sz - (x - cur) \<noteq> 0" using lt by auto
  show "x + (sz - (x - cur) - 1) = cur + (sz - 1)" by simp
  show "x - cur \<noteq> 0" using assms(1) by auto
qed

definition coveredBlocks :: "Block list \<Rightarrow> VaType \<Rightarrow> VaType \<Rightarrow> Block list" where
  "coveredBlocks blocks v sz =
     blocks ! (upper_bound blocks v - 1)
       # takeWhile (\<lambda>b. virt b \<le> v + (sz - 1)) (drop (upper_bound blocks v) blocks)"

lemma ReadLoop_fault:
  assumes "sorted_wrt (\<lambda>a b. virt a < virt b) (pred # rest)"
      and "rest \<noteq> [] \<longrightarrow> cur < virt (hd rest)"
      and "sz \<noteq> 0" "cur \<le> cur + (sz - 1)"
      and "filter (\<lambda>b. phys b = 0) (pred # takeWhile (\<lambda>b. virt b \<le> cur + (sz - 1)) rest) \<noteq> []"
  shows "snd (ReadLoop (pred # rest) host dest sz bp (blockSize rest cur sz))
         = Some (PageFault (virt (hd (filter (\<lambda>b. phys b = 0)
               (pred # takeWhile (\<lambda>b. virt b \<le> cur + (sz - 1)) rest)))))"
  using assms
proof (induction rest arbitrary: pred cur sz host dest bp)
  case Nil
  then show ?case by (auto split: if_splits)
next
  case (Cons nxt rest')
  show ?case
  proof (cases "phys pred = 0")
    case True
    with Cons.prems(3) show ?thesis by simp
  next
    case False
    with Cons.prems(5) have le: "virt nxt \<le> cur + (sz - 1)" by (auto split: if_splits)
    have lt: "cur < virt nxt" using Cons.prems(2) by simp
    note wf = word_step_facts[OF lt le Cons.prems(4) Cons.prems(3)]
    have s': "sorted_wrt (\<lambda>a b. virt a < virt b) (nxt # rest')" using Cons.prems(1) by simp
    have nx: "rest' \<noteq> [] \<longrightarrow> virt nxt < virt (hd rest')" using s' by (cases rest') auto
    have le': "virt nxt \<le> virt nxt + (sz - (virt nxt - cur) - 1)" using le by (simp only: wf(3))
    have f': "filter (\<lambda>b. phys b = 0) (nxt # takeWhile (\<lambda>b. virt b \<le> virt nxt + (sz - (virt nxt - cur) - 1)) rest') \<noteq> []"
      using Cons.prems(5) False le by (simp add: wf(3))
    have ih: "snd (ReadLoop (nxt # rest') h d (sz - (virt nxt - cur)) b (blockSize rest' (virt nxt) (sz - (virt nxt - cur))))
         = Some (PageFault (virt (hd (filter (\<lambda>b. phys b = 0)
               (nxt # takeWhile (\<lambda>b. virt b \<le> virt nxt + (sz - (virt nxt - cur) - 1)) rest')))))" for h d b
      using Cons.IH[OF s' nx wf(2) le' f'] .
    show ?thesis
      using False Cons.prems(3) le wf(1,2)
      by (simp add: blockSize_def Let_def del: ReadLoop.simps(2) add: ReadLoop.simps(2)[of pred] ih[unfolded blockSize_def] wf(3))
  qed
qed

lemma upper_bound_drop:
  assumes "blocks \<noteq> []" "virt (hd blocks) \<le> v"
  shows "0 < upper_bound blocks v"
    and "drop (upper_bound blocks v - 1) blocks
           = blocks ! (upper_bound blocks v - 1) # drop (upper_bound blocks v) blocks"
    and "drop (upper_bound blocks v) blocks \<noteq> [] \<longrightarrow> v < virt (hd (drop (upper_bound blocks v) blocks))"
    and "virt (blocks ! (upper_bound blocks v - 1)) \<le> v"
proof -
  let ?P = "\<lambda>b. \<not> v < virt b"
  show pos: "0 < upper_bound blocks v"
    using assms by (cases blocks) (auto simp: upper_bound_def not_less)
  have le: "upper_bound blocks v \<le> length blocks"
    by (simp add: upper_bound_def length_takeWhile_le)
  then have lt: "upper_bound blocks v - 1 < length blocks" using pos by simp
  from Cons_nth_drop_Suc[OF lt] pos
  show "drop (upper_bound blocks v - 1) blocks
           = blocks ! (upper_bound blocks v - 1) # drop (upper_bound blocks v) blocks"
    by simp
  have d: "drop (upper_bound blocks v) blocks = dropWhile ?P blocks"
    by (simp add: upper_bound_def dropWhile_eq_drop)
  show "drop (upper_bound blocks v) blocks \<noteq> [] \<longrightarrow> v < virt (hd (drop (upper_bound blocks v) blocks))"
    unfolding d using hd_dropWhile[of ?P blocks] by auto
  have "blocks ! (upper_bound blocks v - 1) = takeWhile ?P blocks ! (upper_bound blocks v - 1)"
    using pos by (simp add: upper_bound_def takeWhile_nth)
  moreover have "takeWhile ?P blocks ! (upper_bound blocks v - 1) \<in> set (takeWhile ?P blocks)"
    using pos by (simp add: upper_bound_def)
  ultimately have "?P (blocks ! (upper_bound blocks v - 1))"
    using set_takeWhileD by metis
  then show "virt (blocks ! (upper_bound blocks v - 1)) \<le> v" by (simp add: not_less)
qed

lemma sortedBlocks_drop: "sortedBlocks blocks \<Longrightarrow> sortedBlocks (drop k blocks)"
  unfolding sortedBlocks_def by (rule sorted_wrt_drop)

lemma ReadLoop_fault_block:
  "ReadLoop blocks host dest sz bp brs = (host', Some (PageFault a))
   \<Longrightarrow> \<exists>b\<in>set blocks. virt b = a \<and> phys b = 0"
proof (induction blocks arbitrary: host dest sz bp brs)
  case Nil
  then show ?case by (simp split: if_splits)
next
  case (Cons pred rest)
  show ?case
  proof (cases "sz = 0 \<or> phys pred = 0 \<or> brs = None")
    case True
    with Cons.prems show ?thesis by (auto split: if_splits)
  next
    case False
    then obtain n where n: "brs = Some n" by auto
    define host1 where "host1 =
      (if extraInfo pred then (memset0 (fst host) dest (unat n), snd host)
       else (memcpy (fst host) dest bp (unat n), snd host @ [(bp, n)]))"
    from False n Cons.prems have "ReadLoop rest host1 (dest + unat n) (sz - n) (predecessorPhys rest)
         (case rest of [] \<Rightarrow> None | p # s \<Rightarrow> blockSize s (virt p) (sz - n)) = (host', Some (PageFault a))"
      by (auto simp: Let_def host1_def split: if_splits)
    from Cons.IH[OF this] show ?thesis by auto
  qed
qed

lemma word_prefix_facts:
  fixes cur x a :: VaType
  assumes "cur < x" "x < a"
  shows "min (x - cur) (a - cur) = x - cur" "a - cur - (x - cur) = a - x" "a - x \<noteq> 0"
proof -
  have "x - cur < a - cur" using assms by unat_arith
  then show "min (x - cur) (a - cur) = x - cur" by (simp add: min_absorb1 less_imp_le)
  show "a - cur - (x - cur) = a - x" by simp
  show "a - x \<noteq> 0" using assms(2) by auto
qed

lemma ReadLoop_prefix:
  assumes "sorted_wrt (\<lambda>a b. virt a < virt b) (pred # rest)"
      and "virt pred \<le> cur"
      and "rest \<noteq> [] \<longrightarrow> cur < virt (hd rest)"
      and "ReadLoop (pred # rest) host dest sz bp (blockSize rest cur sz) = (host', Some (PageFault a))"
      and "cur < a"
  shows "ReadLoop (pred # rest) host dest (a - cur) bp (blockSize rest cur (a - cur)) = (host', None)"
  using assms
proof (induction rest arbitrary: pred cur sz host dest bp)
  case Nil
  then show ?case by (auto simp: blockSize_def split: if_splits)
next
  case (Cons nxt rest')
  have pm: "phys pred \<noteq> 0" "sz \<noteq> 0"
    using Cons.prems(2,4,5) by (auto split: if_splits)
  have lt: "cur < virt nxt" using Cons.prems(3) by simp
  define n where "n = min (virt nxt - cur) sz"
  define host1 where "host1 =
      (if extraInfo pred then (memset0 (fst host) dest (unat n), snd host)
       else (memcpy (fst host) dest bp (unat n), snd host @ [(bp, n)]))"
  have step: "ReadLoop (pred # nxt # rest') host dest sz bp (blockSize (nxt # rest') cur sz) =
      (if sz - n \<noteq> 0 then ReadLoop (nxt # rest') host1 (dest + unat n) (sz - n) (phys nxt)
                              (blockSize rest' (virt nxt) (sz - n))
       else (host1, None))"
    using pm by (simp add: blockSize_def n_def host1_def Let_def del: ReadLoop.simps(2) add: ReadLoop.simps(2)[of pred])
  with Cons.prems(4) have nz: "sz - n \<noteq> 0"
    and rec: "ReadLoop (nxt # rest') host1 (dest + unat n) (sz - n) (phys nxt)
                (blockSize rest' (virt nxt) (sz - n)) = (host', Some (PageFault a))"
    by (auto split: if_splits)
  have neq: "n = virt nxt - cur" using nz by (auto simp: n_def min_def split: if_splits)
  have s': "sorted_wrt (\<lambda>a b. virt a < virt b) (nxt # rest')" using Cons.prems(1) by simp
  have nx: "rest' \<noteq> [] \<longrightarrow> virt nxt < virt (hd rest')" using s' by (cases rest') auto
  from ReadLoop_fault_block[OF rec] obtain b where b: "b \<in> set (nxt # rest')" "virt b = a" "phys b = 0"
    by blast
  show ?case
  proof (cases "phys nxt = 0")
    case True
    with rec nz have "host' = host1" "a = virt nxt" by auto
    moreover have "virt nxt \<noteq> cur" "virt nxt - cur \<noteq> 0" using lt by auto
    ultimately show ?thesis using pm
      by (simp add: blockSize_def Let_def host1_def neq)
  next
    case False
    with b have "b \<in> set rest'" by auto
    with s' b(2) have lta: "virt nxt < a" by auto
    note wf = word_prefix_facts[OF lt lta]
    have ih: "ReadLoop (nxt # rest') host1 (dest + unat n) (a - virt nxt) (phys nxt)
                (blockSize rest' (virt nxt) (a - virt nxt)) = (host', None)"
      using Cons.IH[OF s' order_refl nx rec lta] .
    have ane: "a - cur \<noteq> 0" using Cons.prems(5) by auto
    show ?thesis
      using pm(1) ane wf ih[unfolded host1_def neq blockSize_def]
      by (simp add: blockSize_def Let_def del: ReadLoop.simps(2) add: ReadLoop.simps(2)[of pred])
  qed
qed

text \<open>
  The byte a guest address holds: the block in front of the upper bound of the address
  translates it, as at the head of \<^verbatim>\<open>Read\<close>; a sparse block reads as zero, any other block
  as the host byte at its backing plus the offset into the block.
\<close>

definition predecessorOf :: "Block list \<Rightarrow> VaType \<Rightarrow> Block" where
  "predecessorOf blocks va = blocks ! (upper_bound blocks va - 1)"

definition hostAddress :: "Block list \<Rightarrow> VaType \<Rightarrow> PaType" where
  "hostAddress blocks va =
     phys (predecessorOf blocks va) + unat (va - virt (predecessorOf blocks va))"

definition guestByte :: "Block list \<Rightarrow> Memory \<Rightarrow> VaType \<Rightarrow> 8 word" where
  "guestByte blocks m va =
     (if extraInfo (predecessorOf blocks va) then 0 else m (hostAddress blocks va))"

lemma predecessorOf_at:
  assumes "sortedBlocks (A @ pred # rest)" "virt pred \<le> va" "rest \<noteq> [] \<longrightarrow> va < virt (hd rest)"
  shows "predecessorOf (A @ pred # rest) va = pred"
proof -
  have s: "sorted_wrt (\<lambda>a b. virt a < virt b) (A @ pred # rest)"
    using assms(1) by (simp add: sortedBlocks_def)
  have X: "\<forall>b\<in>set (A @ [pred]). virt b \<le> va"
    using s assms(2) by (auto simp add: sorted_wrt_append intro: less_imp_le order.trans)
  have Y: "\<forall>b\<in>set rest. va < virt b"
  proof (cases rest)
    case Nil
    then show ?thesis by simp
  next
    case (Cons r rs)
    have "sorted_wrt (\<lambda>a b. virt a < virt b) (r # rs)"
      using s Cons by (simp add: sorted_wrt_append)
    then show ?thesis using assms(3) Cons by (auto intro: less_trans)
  qed
  have "upper_bound ((A @ [pred]) @ rest) va = length (A @ [pred])"
    by (rule upper_bound_append[OF X Y])
  then show ?thesis by (simp add: predecessorOf_def nth_append)
qed

lemma ReadLoop_frame:
  "ReadLoop bs host dest sz bp brs = (host', r) \<Longrightarrow> x < dest \<Longrightarrow> fst host' x = fst host x"
proof (induction bs arbitrary: host dest sz bp brs)
  case Nil
  then show ?case by (simp split: if_splits)
next
  case (Cons pred rest)
  show ?case
  proof (cases "sz = 0 \<or> phys pred = 0 \<or> brs = None")
    case True
    with Cons.prems show ?thesis by (auto split: if_splits)
  next
    case False
    then obtain n where n: "brs = Some n" by auto
    define host1 where "host1 =
      (if extraInfo pred then (memset0 (fst host) dest (unat n), snd host)
       else (memcpy (fst host) dest bp (unat n), snd host @ [(bp, n)]))"
    have h1: "fst host1 x = fst host x"
      using Cons.prems(2) by (simp add: host1_def memset0_def memcpy_def)
    show ?thesis
    proof (cases "sz - n = 0")
      case True
      with False n Cons.prems(1) have "host' = host1"
        by (auto simp: Let_def host1_def split: if_splits)
      with h1 show ?thesis by simp
    next
      case nz: False
      with False n Cons.prems(1) have "ReadLoop rest host1 (dest + unat n) (sz - n) (predecessorPhys rest)
         (case rest of [] \<Rightarrow> None | p # s \<Rightarrow> blockSize s (virt p) (sz - n)) = (host', r)"
        by (auto simp: Let_def host1_def split: if_splits)
      from Cons.IH[OF this] Cons.prems(2) h1 show ?thesis by simp
    qed
  qed
qed

lemma word_offset_facts:
  fixes cur x p :: VaType
  assumes "p \<le> cur" "cur < x" "i < unat (x - cur)"
  shows "p \<le> cur + of_nat i" "cur + of_nat i < x"
        "unat (cur + of_nat i - p) = unat (cur - p) + i"
proof -
  have d: "unat (x - cur) = unat x - unat cur" using assms(2) by (simp add: unat_sub less_imp_le)
  have cx: "unat cur < unat x" using assms(2) by (simp add: word_less_nat_alt)
  have x: "unat x < 2 ^ 64" using unsigned_less[of x, where 'a=nat] by simp
  have i: "unat cur + i < unat x" using assms(3) d cx by simp
  then have i64: "i < 2 ^ 64" using x by simp
  have oi: "unat (of_nat i :: VaType) = i" using i64 by (simp add: unat_of_nat)
  have sum: "unat (cur + of_nat i) = unat cur + i"
    using i x oi by (simp add: unat_add_lem[THEN iffD1])
  show le: "p \<le> cur + of_nat i" using assms(1) sum by (simp add: word_le_nat_alt)
  show "cur + of_nat i < x" using i sum by (simp add: word_less_nat_alt)
  have "unat (cur + of_nat i - p) = unat (cur + of_nat i) - unat p"
    using le by (simp add: unat_sub)
  moreover have "unat (cur - p) = unat cur - unat p" using assms(1) by (simp add: unat_sub)
  moreover have "unat p \<le> unat cur" using assms(1) by (simp add: word_le_nat_alt)
  ultimately show "unat (cur + of_nat i - p) = unat (cur - p) + i" using sum by simp
qed

lemma word_split_facts:
  fixes cur x a :: VaType
  assumes "cur < x" "x < a"
  shows "unat (a - cur) = unat (x - cur) + unat (a - x)"
        "cur + of_nat (unat (x - cur) + k) = x + of_nat k"
proof -
  have "unat (a - cur) = unat a - unat cur" "unat (x - cur) = unat x - unat cur"
       "unat (a - x) = unat a - unat x"
    using assms by (simp_all add: unat_sub less_imp_le)
  moreover have "unat cur < unat x" "unat x < unat a" using assms by (simp_all add: word_less_nat_alt)
  ultimately show "unat (a - cur) = unat (x - cur) + unat (a - x)" by simp
  show "cur + of_nat (unat (x - cur) + k) = x + of_nat k" by simp
qed


lemma ReadLoop_data:
  assumes "sortedBlocks (A @ pred # rest)"
      and "virt pred \<le> cur"
      and "rest \<noteq> [] \<longrightarrow> cur < virt (hd rest)"
      and "ReadLoop (pred # rest) host dest sz bp (blockSize rest cur sz) = (host', Some (PageFault a))"
      and "cur < a"
      and "bp = phys pred + unat (cur - virt pred)"
      and "\<forall>i<unat (a - cur). \<forall>j<unat (a - cur).
             \<not> extraInfo (predecessorOf (A @ pred # rest) (cur + of_nat j))
             \<longrightarrow> dest + i \<noteq> hostAddress (A @ pred # rest) (cur + of_nat j)"
  shows "\<forall>i<unat (a - cur). fst host' (dest + i) = guestByte (A @ pred # rest) (fst host) (cur + of_nat i)"
  using assms
proof (induction rest arbitrary: A pred cur sz host dest bp)
  case Nil
  then show ?case by (auto simp: blockSize_def split: if_splits)
next
  case (Cons nxt rest')
  let ?B = "A @ pred # nxt # rest'"
  have pm: "phys pred \<noteq> 0" "sz \<noteq> 0"
    using Cons.prems(2,4,5) by (auto split: if_splits)
  have lt: "cur < virt nxt" using Cons.prems(3) by simp
  define n where "n = min (virt nxt - cur) sz"
  define host1 where "host1 =
      (if extraInfo pred then (memset0 (fst host) dest (unat n), snd host)
       else (memcpy (fst host) dest bp (unat n), snd host @ [(bp, n)]))"
  have step: "ReadLoop (pred # nxt # rest') host dest sz bp (blockSize (nxt # rest') cur sz) =
      (if sz - n \<noteq> 0 then ReadLoop (nxt # rest') host1 (dest + unat n) (sz - n) (phys nxt)
                              (blockSize rest' (virt nxt) (sz - n))
       else (host1, None))"
    using pm by (simp add: blockSize_def n_def host1_def Let_def del: ReadLoop.simps(2) add: ReadLoop.simps(2)[of pred])
  with Cons.prems(4) have nz: "sz - n \<noteq> 0"
    and rec: "ReadLoop (nxt # rest') host1 (dest + unat n) (sz - n) (phys nxt)
                (blockSize rest' (virt nxt) (sz - n)) = (host', Some (PageFault a))"
    by (auto split: if_splits)
  have neq: "n = virt nxt - cur" using nz by (auto simp: n_def min_def split: if_splits)
  have sB: "sortedBlocks ((A @ [pred]) @ nxt # rest')" using Cons.prems(1) by simp
  have s': "sorted_wrt (\<lambda>a b. virt a < virt b) (nxt # rest')"
    using Cons.prems(1) by (simp add: sortedBlocks_def sorted_wrt_append)
  have nx: "rest' \<noteq> [] \<longrightarrow> virt nxt < virt (hd rest')" using s' by (cases rest') auto
  from ReadLoop_fault_block[OF rec] obtain b where b: "b \<in> set (nxt # rest')" "virt b = a" "phys b = 0"
    by blast
  have le_a: "virt nxt \<le> a" using b s' by auto
  have chunk: "fst host1 (dest + i) = guestByte ?B (fst host) (cur + of_nat i)" if "i < unat n" for i
  proof -
    note w = word_offset_facts[OF Cons.prems(2) lt that[unfolded neq]]
    have p: "predecessorOf ?B (cur + of_nat i) = pred"
      using predecessorOf_at[OF Cons.prems(1) w(1)] w(2) by simp
    show ?thesis
      using that by (simp add: guestByte_def hostAddress_def p host1_def memset0_def memcpy_def
                               Cons.prems(6) w(3) add.assoc)
  qed
  show ?case
  proof (cases "phys nxt = 0")
    case True
    with rec nz have "host' = host1" "a = virt nxt" by auto
    then show ?thesis using chunk by (simp add: neq)
  next
    case False
    with b have "b \<in> set rest'" by auto
    with s' b(2) have lta: "virt nxt < a" by auto
    note ws = word_split_facts[OF lt lta]
    have un: "unat (a - cur) = unat n + unat (a - virt nxt)" using ws(1) by (simp add: neq)
    have no: "\<forall>i<unat (a - virt nxt). \<forall>j<unat (a - virt nxt).
             \<not> extraInfo (predecessorOf ((A @ [pred]) @ nxt # rest') (virt nxt + of_nat j))
             \<longrightarrow> dest + unat n + i \<noteq> hostAddress ((A @ [pred]) @ nxt # rest') (virt nxt + of_nat j)"
    proof (intro allI impI)
      fix i j
      assume i: "i < unat (a - virt nxt)" and j: "j < unat (a - virt nxt)"
        and sp: "\<not> extraInfo (predecessorOf ((A @ [pred]) @ nxt # rest') (virt nxt + of_nat j))"
      have "unat n + i < unat (a - cur)" "unat n + j < unat (a - cur)" using i j un by simp_all
      moreover have "cur + of_nat (unat n + j) = virt nxt + of_nat j" using ws(2) by (simp add: neq)
      ultimately show "dest + unat n + i \<noteq> hostAddress ((A @ [pred]) @ nxt # rest') (virt nxt + of_nat j)"
        using Cons.prems(7) sp by (metis add.assoc append.assoc append_Cons append_Nil)
    qed
    have ih: "\<forall>i<unat (a - virt nxt). fst host' (dest + unat n + i)
                = guestByte ((A @ [pred]) @ nxt # rest') (fst host1) (virt nxt + of_nat i)"
      by (rule Cons.IH[OF sB order_refl nx rec lta _ no]) simp
    show ?thesis
    proof (intro allI impI)
      fix i
      assume i: "i < unat (a - cur)"
      show "fst host' (dest + i) = guestByte ?B (fst host) (cur + of_nat i)"
      proof (cases "i < unat n")
        case True
        then have "fst host' (dest + i) = fst host1 (dest + i)"
          using ReadLoop_frame[OF rec, of "dest + i"] by simp
        with chunk[OF True] show ?thesis by simp
      next
        case False
        define k where "k = i - unat n"
        have ik: "i = unat n + k" "k < unat (a - virt nxt)" using False i un by (simp_all add: k_def)
        have va: "cur + of_nat i = virt nxt + of_nat k" using ws(2) ik by (simp add: neq)
        have "fst host' (dest + i) = guestByte ?B (fst host1) (virt nxt + of_nat k)"
          using ih ik by (simp add: add.assoc)
        also have "\<dots> = guestByte ?B (fst host) (virt nxt + of_nat k)"
        proof (cases "extraInfo (predecessorOf ?B (virt nxt + of_nat k))")
          case True
          then show ?thesis by (simp add: guestByte_def)
        next
          case sp: False
          have "\<forall>i'<unat n. dest + i' \<noteq> hostAddress ?B (virt nxt + of_nat k)"
          proof (intro allI impI)
            fix i'
            assume "i' < unat n"
            then have "i' < unat (a - cur)" using un by simp
            then show "dest + i' \<noteq> hostAddress ?B (virt nxt + of_nat k)"
              using Cons.prems(7) i sp va by metis
          qed
          then have "\<not> (dest \<le> hostAddress ?B (virt nxt + of_nat k)
                        \<and> hostAddress ?B (virt nxt + of_nat k) < dest + unat n)"
            by (metis le_add_diff_inverse less_diff_conv2 add.commute)
          then have "fst host1 (hostAddress ?B (virt nxt + of_nat k))
                       = fst host (hostAddress ?B (virt nxt + of_nat k))"
            by (auto simp add: host1_def memset0_def memcpy_def)
          then show ?thesis using sp by (simp add: guestByte_def)
        qed
        finally show ?thesis by (simp add: va)
      qed
    qed
  qed
qed


lemma Read_fault_prefix_state:
  assumes "sortedBlocks blocks" "blocks \<noteq> []" "virt (hd blocks) \<le> v"
      and "Read blocks host dest v sz = (host', Some (PageFault a))"
      and "v < a"
  shows "Read blocks host dest v (a - v) = (host', None)"
proof -
  note ub = upper_bound_drop[OF assms(2,3)]
  let ?s = "upper_bound blocks v"
  have s: "sorted_wrt (\<lambda>a b. virt a < virt b) (blocks ! (?s - 1) # drop ?s blocks)"
    using sortedBlocks_drop[OF assms(1), of "?s - 1"] ub(2) by (simp add: sortedBlocks_def)
  have "ReadLoop (blocks ! (?s - 1) # drop ?s blocks) host dest sz
          (phys (blocks ! (?s - 1)) + unat (v - virt (blocks ! (?s - 1))))
          (blockSize (drop ?s blocks) v sz) = (host', Some (PageFault a))"
    using assms(4) ub(1) unfolding Read_def Let_def ub(2) by simp
  from ReadLoop_prefix[OF s ub(4) ub(3) this assms(5)]
  show ?thesis using ub(1) unfolding Read_def Let_def ub(2) by simp
qed

lemma Read_fault_prefix_data:
  assumes "sortedBlocks blocks" "blocks \<noteq> []" "virt (hd blocks) \<le> v"
      and "Read blocks host dest v sz = (host', Some (PageFault a))"
      and "v < a"
      and "\<forall>i<unat (a - v). \<forall>j<unat (a - v).
             \<not> extraInfo (predecessorOf blocks (v + of_nat j))
             \<longrightarrow> dest + i \<noteq> hostAddress blocks (v + of_nat j)"
  shows "\<forall>i<unat (a - v). fst host' (dest + i) = guestByte blocks (fst host) (v + of_nat i)"
    and "\<exists>b\<in>set blocks. virt b = a \<and> phys b = 0"
proof -
  note ub = upper_bound_drop[OF assms(2,3)]
  let ?s = "upper_bound blocks v"
  let ?A = "take (?s - 1) blocks"
  have split: "blocks = ?A @ blocks ! (?s - 1) # drop ?s blocks"
    by (metis append_take_drop_id ub(2))
  have rl: "ReadLoop (blocks ! (?s - 1) # drop ?s blocks) host dest sz
          (phys (blocks ! (?s - 1)) + unat (v - virt (blocks ! (?s - 1))))
          (blockSize (drop ?s blocks) v sz) = (host', Some (PageFault a))"
    using assms(4) ub(1) unfolding Read_def Let_def ub(2) by simp
  have "\<forall>i<unat (a - v). fst host' (dest + i)
          = guestByte (?A @ blocks ! (?s - 1) # drop ?s blocks) (fst host) (v + of_nat i)"
    by (rule ReadLoop_data[OF _ ub(4) ub(3) rl assms(5) refl])
       (use assms(1,6) split in simp_all)
  then show "\<forall>i<unat (a - v). fst host' (dest + i) = guestByte blocks (fst host) (v + of_nat i)"
    using split by simp
  from ReadLoop_fault_block[OF rl] obtain b
    where "b \<in> set (blocks ! (?s - 1) # drop ?s blocks)" "virt b = a" "phys b = 0" by blast
  moreover have "set (blocks ! (?s - 1) # drop ?s blocks) \<subseteq> set blocks"
    using set_drop_subset[of "?s - 1" blocks] ub(2) by simp
  ultimately show "\<exists>b\<in>set blocks. virt b = a \<and> phys b = 0" by blast
qed

text \<open>
  C10. When \<^verbatim>\<open>Read\<close> raises a page fault at a block that starts after the first address
  read, and the destination buffer does not overlap the host memory backing the range in
  front of that block, then every byte of the destination buffer up to the faulting block
  holds the byte of the guest address it was read from (the host byte of a mapped block,
  zero for a sparse block), the fault address is the start of an unbacked block, and the
  host state left behind is exactly the state a complete \<^verbatim>\<open>Read\<close> of the range up to that
  block leaves: nothing is rolled back.
\<close>

theorem Read_fault_keeps_prefix:
  assumes "sortedBlocks blocks" "blocks \<noteq> []" "virt (hd blocks) \<le> v"
      and "Read blocks host dest v sz = (host', Some (PageFault a))"
      and "v < a"
      and "\<forall>i<unat (a - v). \<forall>j<unat (a - v).
             \<not> extraInfo (predecessorOf blocks (v + of_nat j))
             \<longrightarrow> dest + i \<noteq> hostAddress blocks (v + of_nat j)"
  shows "(\<forall>i<unat (a - v). fst host' (dest + i) = guestByte blocks (fst host) (v + of_nat i))
       \<and> (\<exists>b\<in>set blocks. virt b = a \<and> phys b = 0)
       \<and> Read blocks host dest v (a - v) = (host', None)"
  using Read_fault_prefix_data[OF assms] Read_fault_prefix_state[OF assms(1-5)] by simp

lemma WriteLoop_fault:
  assumes "sorted_wrt (\<lambda>a b. virt a < virt b) (pred # rest)"
      and "rest \<noteq> [] \<longrightarrow> cur < virt (hd rest)"
      and "sz \<noteq> 0" "cur \<le> cur + (sz - 1)"
      and "filter (\<lambda>b. phys b = 0) (pred # takeWhile (\<lambda>b. virt b \<le> cur + (sz - 1)) rest) \<noteq> []"
  shows "snd (WriteLoop (pred # rest) host source sz bp (blockSize rest cur sz))
         = Some (PageFault (virt (hd (filter (\<lambda>b. phys b = 0)
               (pred # takeWhile (\<lambda>b. virt b \<le> cur + (sz - 1)) rest)))))"
  using assms
proof (induction rest arbitrary: pred cur sz host source bp)
  case Nil
  then show ?case by (auto split: if_splits)
next
  case (Cons nxt rest')
  show ?case
  proof (cases "phys pred = 0")
    case True
    with Cons.prems(3) show ?thesis by simp
  next
    case False
    with Cons.prems(5) have le: "virt nxt \<le> cur + (sz - 1)" by (auto split: if_splits)
    have lt: "cur < virt nxt" using Cons.prems(2) by simp
    note wf = word_step_facts[OF lt le Cons.prems(4) Cons.prems(3)]
    have s': "sorted_wrt (\<lambda>a b. virt a < virt b) (nxt # rest')" using Cons.prems(1) by simp
    have nx: "rest' \<noteq> [] \<longrightarrow> virt nxt < virt (hd rest')" using s' by (cases rest') auto
    have le': "virt nxt \<le> virt nxt + (sz - (virt nxt - cur) - 1)" using le by (simp only: wf(3))
    have f': "filter (\<lambda>b. phys b = 0) (nxt # takeWhile (\<lambda>b. virt b \<le> virt nxt + (sz - (virt nxt - cur) - 1)) rest') \<noteq> []"
      using Cons.prems(5) False le by (simp add: wf(3))
    have ih: "snd (WriteLoop (nxt # rest') h d (sz - (virt nxt - cur)) b (blockSize rest' (virt nxt) (sz - (virt nxt - cur))))
         = Some (PageFault (virt (hd (filter (\<lambda>b. phys b = 0)
               (nxt # takeWhile (\<lambda>b. virt b \<le> virt nxt + (sz - (virt nxt - cur) - 1)) rest')))))" for h d b
      using Cons.IH[OF s' nx wf(2) le' f'] .
    show ?thesis
      using False Cons.prems(3) le wf(1,2)
      by (simp add: blockSize_def Let_def del: WriteLoop.simps(2) add: WriteLoop.simps(2)[of pred] ih[unfolded blockSize_def] wf(3))
  qed
qed


text \<open>
  C8 (amended). A \<^verbatim>\<open>Read\<close> or \<^verbatim>\<open>Write\<close> of a non-empty, non-wrapping range that covers
  an unbacked block ends with a page fault carrying the start address of the first
  unbacked block of the range; nothing is retried.
\<close>

theorem access_unbacked_page_fault:
  assumes "sortedBlocks blocks" "blocks \<noteq> []" "virt (hd blocks) \<le> v"
      and "sz \<noteq> 0" "v \<le> v + (sz - 1)"
      and "filter (\<lambda>b. phys b = 0) (coveredBlocks blocks v sz) \<noteq> []"
  shows "snd (Read blocks host dest v sz)
           = Some (PageFault (virt (hd (filter (\<lambda>b. phys b = 0) (coveredBlocks blocks v sz)))))
       \<and> snd (Write blocks host v source sz)
           = Some (PageFault (virt (hd (filter (\<lambda>b. phys b = 0) (coveredBlocks blocks v sz)))))"
proof -
  note ub = upper_bound_drop[OF assms(2,3)]
  let ?s = "upper_bound blocks v"
  have s: "sorted_wrt (\<lambda>a b. virt a < virt b) (blocks ! (?s - 1) # drop ?s blocks)"
    using sortedBlocks_drop[OF assms(1), of "?s - 1"] ub(2) by (simp add: sortedBlocks_def)
  have f: "filter (\<lambda>b. phys b = 0)
             (blocks ! (?s - 1) # takeWhile (\<lambda>b. virt b \<le> v + (sz - 1)) (drop ?s blocks)) \<noteq> []"
    using assms(6) by (simp add: coveredBlocks_def)
  have "snd (Read blocks host dest v sz)
           = Some (PageFault (virt (hd (filter (\<lambda>b. phys b = 0) (coveredBlocks blocks v sz)))))"
    using ReadLoop_fault[OF s ub(3) assms(4,5) f] ub(1)
    unfolding Read_def Let_def ub(2) coveredBlocks_def by simp
  moreover have "snd (Write blocks host v source sz)
           = Some (PageFault (virt (hd (filter (\<lambda>b. phys b = 0) (coveredBlocks blocks v sz)))))"
    using WriteLoop_fault[OF s ub(3) assms(4,5) f] ub(1)
    unfolding Write_def Let_def ub(2) coveredBlocks_def by simp
  ultimately show ?thesis by simp
qed

definition blocksSparse :: "Block list" where
  "blocksSparse = [Block 0 0 False, Block 0x1000 5000 False, Block 0x2000 9000 True,
                   Block 0x3000 0 False]"

definition mem0 :: Memory where
  "mem0 = (\<lambda>a. if a = 5000 then 42 else 0)"

lemmas access_eval_defs = Read_def Write_def Copy_def upper_bound_def blockSize_def remaining_def
  min3_def blocksSparse_def coveredBlocks_def sortedBlocks_def

theorem access_unbacked_page_fault_witness:
  "snd (Read blocksSparse (mem0, []) 100 0x2FFE 4) = Some (PageFault 0x3000)
   \<and> snd (Write blocksSparse (mem0, []) 0x2FFE 100 4) = Some (PageFault 0x3000)"
  using access_unbacked_page_fault[of blocksSparse "0x2FFE" 4 "(mem0, [])" 100 100]
  by (simp add: blocksSparse_def coveredBlocks_def sortedBlocks_def upper_bound_def)

text \<open>
  C8 as stated fails when the access starts inside the unbacked block: the fault carries
  the start of the block, not the address accessed.
\<close>

theorem page_fault_reports_block_start:
  "snd (Read [Block 0 0 False] (mem0, []) 100 0x5000 4) = Some (PageFault 0)
   \<and> snd (Write [Block 0 0 False] (mem0, []) 0x5000 100 4) = Some (PageFault 0)
   \<and> PageFault 0 \<noteq> PageFault 0x5000"
  by (simp add: access_eval_defs)

definition blocksShort :: "Block list" where
  "blocksShort = [Block 0 0 False, Block 0x10 5000 False, Block 0x12 9000 True,
                  Block 0x14 0 False]"

theorem Read_fault_keeps_prefix_witness:
  "Read blocksShort (mem0, []) 100 0x10 6
     = ((memset0 (memcpy mem0 100 5000 2) 102 2, [(5000, 2)]), Some (PageFault 0x14))
   \<and> memset0 (memcpy mem0 100 5000 2) 102 2 100 = 42
   \<and> guestByte blocksShort mem0 0x10 = 42
   \<and> Read blocksShort (mem0, []) 100 0x10 (0x14 - 0x10)
       = ((memset0 (memcpy mem0 100 5000 2) 102 2, [(5000, 2)]), None)"
proof -
  have r: "Read blocksShort (mem0, []) 100 0x10 6
     = ((memset0 (memcpy mem0 100 5000 2) 102 2, [(5000, 2)]), Some (PageFault 0x14))"
    by (simp add: Read_def upper_bound_def blockSize_def blocksShort_def)
  have u: "unat (0x14 - 0x10 :: VaType) = 4" by simp
  have nj: "\<not> extraInfo (predecessorOf blocksShort (0x10 + of_nat j))
             \<longrightarrow> 100 + i \<noteq> hostAddress blocksShort (0x10 + of_nat j)"
    if "i < 4" "j < 4" for i j :: nat
  proof -
    from that(2) consider "j = 0" | "j = 1" | "j = 2" | "j = 3" by arith
    then show ?thesis
      using that(1)
      by cases (simp_all add: predecessorOf_def hostAddress_def upper_bound_def blocksShort_def)
  qed
  have no: "\<forall>i<unat (0x14 - 0x10 :: VaType). \<forall>j<unat (0x14 - 0x10 :: VaType).
             \<not> extraInfo (predecessorOf blocksShort (0x10 + of_nat j))
             \<longrightarrow> 100 + i \<noteq> hostAddress blocksShort (0x10 + of_nat j)"
    unfolding u using nj by blast
  have g: "guestByte blocksShort mem0 0x10 = 42"
    by (simp add: guestByte_def predecessorOf_def hostAddress_def upper_bound_def blocksShort_def
                  mem0_def)
  have s: "sortedBlocks blocksShort" "blocksShort \<noteq> []" "virt (hd blocksShort) \<le> 0x10"
    by (simp_all add: sortedBlocks_def blocksShort_def)
  from Read_fault_keeps_prefix[OF s r _ no]
  have "(\<forall>i<unat (0x14 - 0x10 :: VaType).
            fst (memset0 (memcpy mem0 100 5000 2) 102 2, [(5000::nat, 2::VaType)]) (100 + i)
              = guestByte blocksShort (fst (mem0, [])) (0x10 + of_nat i))
        \<and> Read blocksShort (mem0, []) 100 0x10 (0x14 - 0x10)
            = ((memset0 (memcpy mem0 100 5000 2) 102 2, [(5000, 2)]), None)"
    by simp
  then have a: "\<forall>i<4. memset0 (memcpy mem0 100 5000 2) 102 2 (100 + i)
                        = guestByte blocksShort mem0 (0x10 + of_nat i)"
    and b: "Read blocksShort (mem0, []) 100 0x10 (0x14 - 0x10)
            = ((memset0 (memcpy mem0 100 5000 2) 102 2, [(5000, 2)]), None)"
    unfolding u by simp_all
  from a[rule_format, of 0] have "memset0 (memcpy mem0 100 5000 2) 102 2 100
                        = guestByte blocksShort mem0 0x10" by simp
  with r g b show ?thesis by simp
qed


subsection \<open>Sparse blocks\<close>

text \<open>
  C4. The block \<open>[0x2000, 0x3000)\<close> is sparse and backed at host address 9000; the block
  \<open>[0x1000, 0x2000)\<close> is an ordinary mapping backed at 5000, where the byte 42 is stored.
  \<^verbatim>\<open>Copy(0x2000, 0x1000, 4)\<close> tests only the source block for \<^verbatim>\<open>sparseMapped\<close>: it hands
  the destination span to the callback and copies into the backing of the sparse block,
  so the byte at 9000 becomes 42. \<^verbatim>\<open>Write\<close> to the same sparse range leaves the memory
  and the callback untouched.
\<close>

theorem Copy_into_sparse_block_writes:
  "(case Copy blocksSparse (mem0, []) 0x2000 0x1000 4 of
      None \<Rightarrow> False
    | Some ((m, calls), e) \<Rightarrow> e = None \<and> calls = [(9000, 4), (5000, 4)] \<and> m 9000 = 42)
   \<and> mem0 9000 = 0
   \<and> extraInfo (blocksSparse ! 2)
   \<and> (case Write blocksSparse (mem0, []) 0x2000 5000 4 of
        ((m, calls), e) \<Rightarrow> e = None \<and> calls = [] \<and> m 9000 = 0)"
  by code_simp



section \<open>Guest memory reservation manager (kernel MemoryManager)\<close>

text \<open>
  Host pointers and \<^verbatim>\<open>size_t\<close> values are unsigned 64-bit words, so that
  \<^verbatim>\<open>newSize - base.size()\<close> wraps as it does in the source. A \<^verbatim>\<open>span<u8>\<close> is its start
  and its size. The only host call of \<^verbatim>\<open>InitializeRegions\<close> is \<^verbatim>\<open>munmap\<close>; the manager
  records the arguments of each call. The field \<^verbatim>\<open>alias\<close> is named \<open>aliasSpan\<close> here.
\<close>

unbundle bit_operations_syntax

datatype Span = Span (spanData: "64 word") (spanSize: "64 word")

definition spanEnd :: "Span \<Rightarrow> 64 word" where
  "spanEnd s = spanData s + spanSize s"

definition AlignUp :: "64 word \<Rightarrow> 64 word \<Rightarrow> 64 word" where
  "AlignUp val multiple = (val + (multiple - 1)) AND NOT (multiple - 1)"

definition IsAligned :: "64 word \<Rightarrow> 64 word \<Rightarrow> bool" where
  "IsAligned val multiple =
     (if multiple AND (multiple - 1) = 0 then val AND (multiple - 1) = 0
      else val mod multiple = 0)"

definition RegionAlignment :: "64 word" where
  "RegionAlignment = 0x200000"

definition CodeRegionSize :: "64 word" where
  "CodeRegionSize = 0x100000000"

datatype memory_exception =
    NonAlignedCodeRegion
  | CodeMappingLargerThan36BitCodeRegion
  | RegionsInitializedWithoutVmm
  | GuestVmmSizeExceeded
  | CodeRegionSmallerThanMappedCode
  | ChunkOutsideAddressSpace
  | ChunkIteratorOutOfRange

record MemoryManager =
  addressSpace :: Span
  base :: Span
  code :: Span
  aliasSpan :: Span
  heap :: Span
  stack :: Span
  tlsIo :: Span
  munmapCalls :: "(64 word \<times> 64 word) list"

definition InitializeRegions :: "MemoryManager \<Rightarrow> Span \<Rightarrow> memory_exception + MemoryManager" where
  "InitializeRegions mm codeRegion =
     (if \<not> IsAligned (spanData codeRegion) RegionAlignment then Inl NonAlignedCodeRegion
      else
        let laidOut =
          (if spanSize (addressSpace mm) = 0x1000000000 then
             (let code' = Span 0x800000 0x78000000 in
              if spanData code' > spanData codeRegion \<or> spanEnd code' < spanEnd codeRegion
              then Inl CodeMappingLargerThan36BitCodeRegion
              else
                let alias' = Span (spanEnd code') 0x180000000;
                    stack' = Span (spanEnd alias') 0x78000000;
                    tlsIo' = stack';
                    heap' = Span (spanEnd stack') 0x180000000
                in Inr (mm\<lparr>code := code', aliasSpan := alias', stack := stack',
                           tlsIo := tlsIo', heap := heap'\<rparr>))
           else if spanSize (addressSpace mm) = 0x8000000000 then
             (let code' = Span (spanData (base mm)) (AlignUp (spanSize codeRegion) RegionAlignment);
                  alias' = Span (spanEnd code') 0x1000000000;
                  heap' = Span (spanEnd alias') 0x180000000;
                  stack' = Span (spanEnd heap') 0x80000000;
                  tlsIo' = Span (spanEnd stack') 0x1000000000
              in Inr (mm\<lparr>code := code', aliasSpan := alias', heap := heap',
                         stack := stack', tlsIo := tlsIo'\<rparr>))
           else Inl RegionsInitializedWithoutVmm)
        in
        case laidOut of
          Inl ex \<Rightarrow> Inl ex
        | Inr mm1 \<Rightarrow>
            let newSize = spanSize (code mm1) + spanSize (aliasSpan mm1) + spanSize (stack mm1)
                          + spanSize (heap mm1)
                          + (if spanSize (addressSpace mm1) = 0x8000000000
                             then spanSize (tlsIo mm1) else 0)
            in
            if newSize > spanSize (base mm1) then Inl GuestVmmSizeExceeded
            else
              let mm2 = (if newSize \<noteq> spanSize (base mm1)
                         then mm1\<lparr>munmapCalls := munmapCalls mm1 @
                                   [(spanEnd (base mm1), newSize - spanSize (base mm1))]\<rparr>
                         else mm1)
              in
              if spanSize codeRegion > spanSize (code mm2) then Inl CodeRegionSmallerThanMappedCode
              else Inr mm2)"

definition regionsSize :: "MemoryManager \<Rightarrow> 64 word" where
  "regionsSize mm = spanSize (code mm) + spanSize (aliasSpan mm) + spanSize (stack mm)
                    + spanSize (heap mm)
                    + (if spanSize (addressSpace mm) = 0x8000000000 then spanSize (tlsIo mm) else 0)"

definition mm39 :: MemoryManager where
  "mm39 = \<lparr>addressSpace = Span 0 0x8000000000, base = Span 0x800000000 0x2300000000,
           code = Span 0 0, aliasSpan = Span 0 0, heap = Span 0 0, stack = Span 0 0,
           tlsIo = Span 0 0, munmapCalls = []\<rparr>"


text \<open>
  C3. A 39-bit address space with the reservation of \<^verbatim>\<open>InitializeVmm\<close> (0x2300000000 bytes
  at 0x800000000) and a code image of 2 MiB: the regions need 0x2200200000 bytes, less than
  the reservation, and \<^verbatim>\<open>InitializeRegions\<close> succeeds. Its one \<^verbatim>\<open>munmap\<close> call starts
  at the end of the reservation, with the wrapped length \<^verbatim>\<open>newSize - base.size()\<close>; the
  call that releases the unused trailing portion would start at \<^verbatim>\<open>base.data() + newSize\<close>
  with length \<^verbatim>\<open>base.size() - newSize\<close>.
\<close>

theorem InitializeRegions_munmap_arguments:
  "(case InitializeRegions mm39 (Span 0x800000000 0x200000) of
      Inl ex \<Rightarrow> False
    | Inr mm \<Rightarrow>
        regionsSize mm = 0x2200200000
        \<and> spanSize (base mm) = 0x2300000000
        \<and> munmapCalls mm = [(0x2B00000000, 0xFFFFFFFF00200000)]
        \<and> munmapCalls mm \<noteq> [(spanData (base mm) + regionsSize mm,
                               spanSize (base mm) - regionsSize mm)])"
  by (simp add: InitializeRegions_def mm39_def IsAligned_def AlignUp_def RegionAlignment_def
                spanEnd_def regionsSize_def Let_def)


section \<open>Address allocator (FlatAllocator)\<close>

text \<open>
  The allocator is a map whose backing type is \<^verbatim>\<open>bool\<close> (\<^verbatim>\<open>false\<close> is unmapped, \<^verbatim>\<open>true\<close>
  is 1) and that is not offset-contiguous, together with the linear cursor. The loop that
  skips fixed mappings and the first-fit search walk a predecessor and its successor
  through the vector; both are recursions on the suffix that starts at the predecessor.
  \<^verbatim>\<open>Allocate\<close> returns the address and the new state; \<^verbatim>\<open>return {}\<close> is address 0 with the
  state unchanged.
\<close>

record Allocator =
  blocks :: "Block list"
  currentLinearAllocEnd :: VaType

definition FlatAllocator :: "VaType \<Rightarrow> Params \<Rightarrow> Allocator" where
  "FlatAllocator vaStart cfg = \<lparr>blocks = initialBlocks cfg, currentLinearAllocEnd = vaStart\<rparr>"

fun skipFixedMappings :: "Params \<Rightarrow> VaType \<Rightarrow> Block list \<Rightarrow> VaType" where
  "skipFixedMappings cfg sz (allocEndPredecessor # allocEndSuccessor # rest) =
     (if virt allocEndSuccessor - virt allocEndPredecessor < sz \<or> Mapped cfg allocEndPredecessor
      then virt allocEndPredecessor
      else if rest = [] then
        (let allocEnd = virt allocEndSuccessor + sz in
         if allocEnd \<ge> virt allocEndSuccessor \<and> allocEnd \<le> vaLimit cfg
         then virt allocEndSuccessor else UnmappedVa cfg)
      else skipFixedMappings cfg sz (allocEndSuccessor # rest))"
| "skipFixedMappings cfg sz [allocEndPredecessor] = UnmappedVa cfg"
| "skipFixedMappings cfg sz [] = UnmappedVa cfg"

fun searchGap :: "Params \<Rightarrow> VaType \<Rightarrow> Block list \<Rightarrow> VaType option" where
  "searchGap cfg sz (searchPredecessor # searchSuccessor # rest) =
     (if virt searchSuccessor - virt searchPredecessor < sz \<or> Mapped cfg searchPredecessor
      then searchGap cfg sz (searchSuccessor # rest)
      else Some (virt searchPredecessor))"
| "searchGap cfg sz [searchPredecessor] = None"
| "searchGap cfg sz [] = None"

definition Allocate :: "Params \<Rightarrow> Allocator \<Rightarrow> VaType \<Rightarrow> error + (VaType \<times> Allocator)" where
  "Allocate cfg st sz =
     (let allocEnd = currentLinearAllocEnd st + sz;
          linear =
            (if allocEnd \<ge> currentLinearAllocEnd st \<and> allocEnd \<le> vaLimit cfg then
               (let allocEndSuccessor = lower_bound (blocks st) allocEnd in
                if allocEndSuccessor = 0 then Inl FirstBlockInvalid
                else
                  let allocEndPredecessor = allocEndSuccessor - 1 in
                  if virt (blocks st ! allocEndPredecessor) \<le> currentLinearAllocEnd st
                  then Inr (currentLinearAllocEnd st)
                  else Inr (skipFixedMappings cfg sz (drop allocEndPredecessor (blocks st))))
             else Inr (UnmappedVa cfg))
      in
      case linear of
        Inl ex \<Rightarrow> Inl ex
      | Inr allocStart \<Rightarrow>
          if allocStart \<noteq> UnmappedVa cfg then
            (case MapLocked cfg (blocks st) allocStart 1 sz False of
               Inl ex \<Rightarrow> Inl ex
             | Inr blocks' \<Rightarrow>
                 Inr (allocStart, \<lparr>blocks = blocks', currentLinearAllocEnd = allocStart + sz\<rparr>))
          else if length (blocks st) \<le> 2 then Inl UnexpectedAllocatorState
          else
            (case searchGap cfg sz (blocks st) of
               None \<Rightarrow> Inr (0, st)
             | Some allocStart' \<Rightarrow>
                 (case MapLocked cfg (blocks st) allocStart' 1 sz False of
                    Inl ex \<Rightarrow> Inl ex
                  | Inr blocks' \<Rightarrow> Inr (allocStart', st\<lparr>blocks := blocks'\<rparr>))))"

definition cfgAlloc :: Params where
  "cfgAlloc = \<lparr>UnmappedVa = 0, UnmappedPa = 0, PaContigSplit = False, vaLimit = 0x10000\<rparr>"


subsection \<open>Linear allocation and exhaustion\<close>

text \<open>No pair of consecutive blocks is an unmapped gap of at least the requested size.\<close>

definition noGap :: "Params \<Rightarrow> VaType \<Rightarrow> Block list \<Rightarrow> bool" where
  "noGap cfg sz bs =
     (\<forall>i. Suc i < length bs \<longrightarrow> virt (bs ! Suc i) - virt (bs ! i) < sz \<or> Mapped cfg (bs ! i))"

lemma searchGap_noGap: "noGap cfg sz bs \<Longrightarrow> searchGap cfg sz bs = None"
proof (induction cfg sz bs rule: searchGap.induct)
  case (1 cfg sz p s rest)
  from "1.prems" have h: "virt s - virt p < sz \<or> Mapped cfg p"
    unfolding noGap_def by (metis length_Cons nth_Cons_0 nth_Cons_Suc zero_less_Suc Suc_less_eq)
  have "noGap cfg sz (s # rest)"
    unfolding noGap_def
  proof (intro allI impI)
    fix i assume "Suc i < length (s # rest)"
    then have "Suc (Suc i) < length (p # s # rest)" by simp
    from "1.prems"[unfolded noGap_def, rule_format, OF this]
    show "virt ((s # rest) ! Suc i) - virt ((s # rest) ! i) < sz \<or> Mapped cfg ((s # rest) ! i)"
      by simp
  qed
  with "1.IH" h show ?case by simp
qed simp_all

lemma sortedBlocks_le_last:
  "sortedBlocks bs \<Longrightarrow> b \<in> set bs \<Longrightarrow> virt b \<le> virt (last bs)"
proof (induction bs rule: rev_induct)
  case Nil
  then show ?case by simp
next
  case (snoc x xs)
  then show ?case by (auto simp: sortedBlocks_def sorted_wrt_append intro: less_imp_le)
qed

text \<open>
  C7 (amended). Take an allocator whose block list is well formed and whose mappings all
  lie below the linear cursor. If the request fits between the cursor and the VA limit,
  \<^verbatim>\<open>Allocate\<close> returns the cursor, the range it returns was unmapped and is mapped
  afterwards, and the cursor advances past it, again above every mapping: successive
  results overlap neither each other nor an existing mapping. If the request does not fit
  and the vector has at most two blocks, \<^verbatim>\<open>Allocate\<close> raises the fatal
  \<^verbatim>\<open>Unexpected allocator state!\<close>; if the vector is longer and holds no unmapped gap of the
  requested size, it returns the empty result and leaves the allocator unchanged.
\<close>

theorem Allocate_linear_or_exhausted:
  assumes wf: "wellFormedBlocks cfg (blocks st)"
      and below: "virt (last (blocks st)) \<le> currentLinearAllocEnd st"
      and cur: "UnmappedVa cfg < currentLinearAllocEnd st"
      and um: "UnmappedPa cfg \<noteq> 1"
  shows "(currentLinearAllocEnd st < currentLinearAllocEnd st + sz
            \<and> currentLinearAllocEnd st + sz \<le> vaLimit cfg \<longrightarrow>
          (\<exists>blocks'. Allocate cfg st sz
               = Inr (currentLinearAllocEnd st,
                      \<lparr>blocks = blocks', currentLinearAllocEnd = currentLinearAllocEnd st + sz\<rparr>)
             \<and> wellFormedBlocks cfg blocks'
             \<and> virt (last blocks') \<le> currentLinearAllocEnd st + sz
             \<and> (\<forall>a. currentLinearAllocEnd st \<le> a \<and> a < currentLinearAllocEnd st + sz \<longrightarrow>
                    queryVa cfg (blocks st) a = None \<and> queryVa cfg blocks' a \<noteq> None)))
       \<and> (\<not> (currentLinearAllocEnd st \<le> currentLinearAllocEnd st + sz
               \<and> currentLinearAllocEnd st + sz \<le> vaLimit cfg)
            \<and> length (blocks st) \<le> 2 \<longrightarrow>
          Allocate cfg st sz = Inl UnexpectedAllocatorState)
       \<and> (\<not> (currentLinearAllocEnd st \<le> currentLinearAllocEnd st + sz
               \<and> currentLinearAllocEnd st + sz \<le> vaLimit cfg)
            \<and> 2 < length (blocks st) \<and> noGap cfg sz (blocks st) \<longrightarrow>
          Allocate cfg st sz = Inr (0, st))"
proof (intro conjI impI)
  let ?cur = "currentLinearAllocEnd st" and ?bs = "blocks st"
  assume fit: "?cur < ?cur + sz \<and> ?cur + sz \<le> vaLimit cfg"
  let ?A = "partA ?bs ?cur" and ?M = "partM ?bs ?cur (?cur + sz)" and ?C = "partC ?bs ?cur (?cur + sz)"
  let ?new = "Block ?cur 1 False"
  have sb: "sortedBlocks ?bs" and ne: "?bs \<noteq> []" and lu: "Unmapped cfg (last ?bs)"
    using wf by (simp_all add: wellFormedBlocks_def)
  have all_le: "\<forall>b\<in>set ?bs. virt b \<le> ?cur"
    using sortedBlocks_le_last[OF sb] below by (auto intro: order.trans)
  then have all_lt: "\<forall>b\<in>set ?bs. virt b < ?cur + sz" using fit by (auto intro: le_less_trans)
  have lb: "lower_bound ?bs (?cur + sz) = length ?bs"
    using lower_bound_append[of ?bs "?cur + sz" "[]"] all_lt by simp
  have lastnth: "?bs ! (length ?bs - 1) = last ?bs" using ne by (simp add: last_conv_nth)
  have curne: "?cur \<noteq> UnmappedVa cfg" using cur by auto
  note sp = wellFormedBlocks_split[OF wf cur]
  have Cnil: "?C = []"
    using partC_drop[of ?cur "?cur + sz" ?bs] fit lb by (simp add: less_imp_le)
  have "MapLocked cfg (?A @ ?M @ ?C) ?cur 1 sz False = Inr (?A @ ?new # mapTail cfg ?A ?M ?C (?cur + sz))"
    using sp(1) partA_less partM_bounds[OF sb] partC_ge[OF sb] fit[THEN conjunct1] fit[THEN conjunct2]
    by (rule MapLocked_split)
  then have map: "MapLocked cfg ?bs ?cur 1 sz False = Inr (?A @ ?new # mapTail cfg ?A ?M ?C (?cur + sz))"
    by (simp only: part_append)
  have "\<exists>pp ee. mapTail cfg ?A ?M ?C (?cur + sz) = [Block (?cur + sz) pp ee]"
    using Cnil by (cases "?M = []") (auto simp: mapTail_def)
  then obtain pp ee where tail: "mapTail cfg ?A ?M ?C (?cur + sz) = [Block (?cur + sz) pp ee]"
    by blast
  define blocks' where "blocks' = ?A @ [?new, Block (?cur + sz) pp ee]"
  have map': "MapLocked cfg ?bs ?cur 1 sz False = Inr blocks'" using map tail by (simp add: blocks'_def)
  have wf': "wellFormedBlocks cfg blocks'"
    using MapLocked_wellFormedBlocks[OF wf cur, of sz 1 False] fit map' by auto
  have alloc: "Allocate cfg st sz = Inr (?cur, \<lparr>blocks = blocks', currentLinearAllocEnd = ?cur + sz\<rparr>)"
    using fit ne all_le curne map'
    by (simp add: Allocate_def Let_def lb lastnth less_imp_le last_in_set)
  have q: "queryVa cfg ?bs a = None \<and> queryVa cfg blocks' a \<noteq> None" if a: "?cur \<le> a" "a < ?cur + sz" for a
  proof -
    have 1: "\<forall>b\<in>set ?bs. virt b \<le> a" using all_le a(1) by (auto intro: order.trans)
    have "queryVa cfg (?bs @ []) a = None"
      using queryVa_append[OF ne 1, of "[]" cfg] lu by simp
    moreover have 2: "\<forall>b\<in>set (?A @ [?new]). virt b \<le> a"
      using partA_less[of ?bs ?cur] a(1) by (auto intro: less_imp_le less_le_trans)
    have "queryVa cfg ((?A @ [?new]) @ [Block (?cur + sz) pp ee]) a \<noteq> None"
      using queryVa_append[OF _ 2, of "[Block (?cur + sz) pp ee]" cfg] a(2) um
      by (simp add: Unmapped_def)
    ultimately show ?thesis by (simp add: blocks'_def)
  qed
  show "\<exists>blocks'. Allocate cfg st sz = Inr (?cur, \<lparr>blocks = blocks', currentLinearAllocEnd = ?cur + sz\<rparr>)
             \<and> wellFormedBlocks cfg blocks'
             \<and> virt (last blocks') \<le> ?cur + sz
             \<and> (\<forall>a. ?cur \<le> a \<and> a < ?cur + sz \<longrightarrow>
                    queryVa cfg ?bs a = None \<and> queryVa cfg blocks' a \<noteq> None)"
    using alloc wf' q by (intro exI[of _ blocks']) (simp add: blocks'_def)
next
  assume "\<not> (currentLinearAllocEnd st \<le> currentLinearAllocEnd st + sz
               \<and> currentLinearAllocEnd st + sz \<le> vaLimit cfg) \<and> length (blocks st) \<le> 2"
  then show "Allocate cfg st sz = Inl UnexpectedAllocatorState"
    by (auto simp: Allocate_def Let_def)
next
  assume "\<not> (currentLinearAllocEnd st \<le> currentLinearAllocEnd st + sz
               \<and> currentLinearAllocEnd st + sz \<le> vaLimit cfg)
            \<and> 2 < length (blocks st) \<and> noGap cfg sz (blocks st)"
  then show "Allocate cfg st sz = Inr (0, st)"
    using searchGap_noGap[of cfg sz "blocks st"] by (auto simp: Allocate_def Let_def)
qed


theorem Allocate_linear_or_exhausted_witness:
  "(\<exists>blocks'. Allocate cfgAlloc (FlatAllocator 0x1000 cfgAlloc) 0x2000
        = Inr (0x1000, \<lparr>blocks = blocks', currentLinearAllocEnd = 0x1000 + 0x2000\<rparr>)
      \<and> wellFormedBlocks cfgAlloc blocks'
      \<and> virt (last blocks') \<le> 0x1000 + 0x2000
      \<and> (\<forall>a. 0x1000 \<le> a \<and> a < 0x1000 + 0x2000 \<longrightarrow>
             queryVa cfgAlloc (initialBlocks cfgAlloc) a = None \<and> queryVa cfgAlloc blocks' a \<noteq> None))
   \<and> Allocate cfgAlloc (FlatAllocator 0x1000 cfgAlloc) 0x20000 = Inl UnexpectedAllocatorState
   \<and> Allocate cfgAlloc
        \<lparr>blocks = [Block 0 0 False, Block 0x1000 1 False, Block 0x9000 0 False],
         currentLinearAllocEnd = 0x9000\<rparr> 0x8000
       = Inr (0, \<lparr>blocks = [Block 0 0 False, Block 0x1000 1 False, Block 0x9000 0 False],
                  currentLinearAllocEnd = 0x9000\<rparr>)"
proof -
  let ?st = "\<lparr>blocks = [Block 0 0 False, Block 0x1000 1 False, Block 0x9000 0 False],
              currentLinearAllocEnd = 0x9000\<rparr>"
  have wf0: "wellFormedBlocks cfgAlloc (blocks (FlatAllocator 0x1000 cfgAlloc))"
    by (simp add: FlatAllocator_def wellFormedBlocks_def initialBlocks_def sortedBlocks_def
          Unmapped_def cfgAlloc_def)
  have b0: "virt (last (blocks (FlatAllocator 0x1000 cfgAlloc)))
              \<le> currentLinearAllocEnd (FlatAllocator 0x1000 cfgAlloc)"
    and c0: "UnmappedVa cfgAlloc < currentLinearAllocEnd (FlatAllocator 0x1000 cfgAlloc)"
    by (simp_all add: FlatAllocator_def initialBlocks_def cfgAlloc_def)
  have um: "UnmappedPa cfgAlloc \<noteq> 1" by (simp add: cfgAlloc_def)
  have wf1: "wellFormedBlocks cfgAlloc (blocks ?st)"
    by (simp add: wellFormedBlocks_def sortedBlocks_def Unmapped_def cfgAlloc_def)
  have b1: "virt (last (blocks ?st)) \<le> currentLinearAllocEnd ?st"
    and c1: "UnmappedVa cfgAlloc < currentLinearAllocEnd ?st"
    by (simp_all add: cfgAlloc_def)
  have ng: "noGap cfgAlloc 0x8000 (blocks ?st)"
    unfolding noGap_def
  proof (intro allI impI)
    fix i assume "Suc i < length (blocks ?st)"
    then have "i = 0 \<or> i = 1" by auto
    then show "virt (blocks ?st ! Suc i) - virt (blocks ?st ! i) < 0x8000
               \<or> Mapped cfgAlloc (blocks ?st ! i)"
      by (auto simp: Mapped_def cfgAlloc_def)
  qed
  note t0 = Allocate_linear_or_exhausted[OF wf0 b0 c0 um]
  note t1 = Allocate_linear_or_exhausted[OF wf1 b1 c1 um, of "0x8000"]
  have a: "\<exists>blocks'. Allocate cfgAlloc (FlatAllocator 0x1000 cfgAlloc) 0x2000
        = Inr (0x1000, \<lparr>blocks = blocks', currentLinearAllocEnd = 0x1000 + 0x2000\<rparr>)
      \<and> wellFormedBlocks cfgAlloc blocks'
      \<and> virt (last blocks') \<le> 0x1000 + 0x2000
      \<and> (\<forall>a. 0x1000 \<le> a \<and> a < 0x1000 + 0x2000 \<longrightarrow>
             queryVa cfgAlloc (initialBlocks cfgAlloc) a = None \<and> queryVa cfgAlloc blocks' a \<noteq> None)"
    using t0[of "0x2000"] by (simp add: FlatAllocator_def cfgAlloc_def)
  have b: "Allocate cfgAlloc (FlatAllocator 0x1000 cfgAlloc) 0x20000 = Inl UnexpectedAllocatorState"
    using t0[of "0x20000"] by (simp add: FlatAllocator_def cfgAlloc_def initialBlocks_def)
  have c: "Allocate cfgAlloc ?st 0x8000 = Inr (0, ?st)"
    using t1 ng by (simp add: cfgAlloc_def)
  from a b c show ?thesis by blast
qed

text \<open>
  C7 as stated fails on exhaustion: a fresh allocator asked for more than the whole space
  raises the fatal error of the explicit size check instead of returning the empty result.
\<close>

theorem Allocate_exhausted_fresh_is_fatal:
  "Allocate cfgAlloc (FlatAllocator 0x1000 cfgAlloc) 0x20000 = Inl UnexpectedAllocatorState"
  by (simp add: Allocate_def FlatAllocator_def cfgAlloc_def initialBlocks_def)

text \<open>
  The cases the amended claim leaves out. With fixed mappings at \<open>[0x1800, 0x1900)\<close> and
  \<open>[0x3000, 0x3100)\<close> in front of the cursor, the loop that skips fixed mappings stops at
  the first block that is mapped or too small and allocates right there: the result
  \<open>[0x3000, 0x4000)\<close> overlaps the second fixed mapping.
\<close>

lemma Allocate_overlaps_fixed_mapping:
  "Allocate cfgAlloc
     \<lparr>blocks = [Block 0 0 False, Block 0x1800 1 False, Block 0x1900 0 False,
                Block 0x3000 1 False, Block 0x3100 0 False],
      currentLinearAllocEnd = 0x1000\<rparr> 0x1000
     = Inr (0x3000,
            \<lparr>blocks = [Block 0 0 False, Block 0x1800 1 False, Block 0x1900 0 False,
                       Block 0x3000 1 False, Block 0x4000 0 False],
             currentLinearAllocEnd = 0x4000\<rparr>)
   \<and> queryVa cfgAlloc [Block 0 0 False, Block 0x1800 1 False, Block 0x1900 0 False,
                        Block 0x3000 1 False, Block 0x3100 0 False] 0x3000 = Some (1, False)"
  by (simp add: Allocate_def map_eval_defs cfgAlloc_def Let_def queryVa_def upper_bound_def)


section \<open>Chunk descriptor list (kernel MemoryManager)\<close>








subsection \<open>InsertChunk on a partitioned chunk list\<close>








subsection \<open>Well-formed chunk lists\<close>










































subsection \<open>Examples\<close>





end
